theory Spec2Isabelle
  imports Complex_Main "HOL-Library.Product_Lexorder" "HOL-Library.List_Lexorder"
    "HOL-Library.Char_ord"
begin

section \<open>Common ground: errors and binary search\<close>

text \<open>
  Every Python exception the modelled code can raise is a value of \<open>error\<close>; a function that
  may raise returns \<open>error + 'a\<close> with \<open>Inl\<close> for the exception.
\<close>

datatype error = AssertionError | KeyError | IndexError | AttributeError | ValueError | TypeError

text \<open>
  \<^verbatim>\<open>bisect.bisect_left(a, x)\<close> of the Python standard library, as it is written there:
  \<^verbatim>\<open>
  lo, hi = 0, len(a)
  while lo < hi:
      mid = (lo + hi) // 2
      if a[mid] < x: lo = mid + 1
      else: hi = mid
  return lo
  \<close>
  Tuples compare lexicographically in Python, which is the order of pairs used here.
\<close>

function bisect_left_loop :: "'a::linorder list \<Rightarrow> 'a \<Rightarrow> nat \<Rightarrow> nat \<Rightarrow> nat" where
  "bisect_left_loop a x lo hi =
     (if lo < hi then
        (let mid = (lo + hi) div 2 in
         if a ! mid < x then bisect_left_loop a x (mid + 1) hi
         else bisect_left_loop a x lo mid)
      else lo)"
  by pat_completeness auto
termination
  by (relation "measure (\<lambda>(a, x, lo, hi). hi - lo)") auto

declare bisect_left_loop.simps [simp del]

definition bisect_left :: "'a::linorder list \<Rightarrow> 'a \<Rightarrow> nat" where
  "bisect_left a x = bisect_left_loop a x 0 (length a)"

section \<open>Synth: piecewise-constant parameter automation\<close>

text \<open>
  \<^verbatim>\<open>supriya/tools/nonrealtimetools/Synth.py\<close>. A synth is a timespan with a dictionary
  \<^verbatim>\<open>_events\<close> from parameter name to a list of (relative timestep, value) pairs.
  Offsets and numeric values are exact rationals; \<^verbatim>\<open>synthdef.parameters[item].value\<close> is the
  field \<open>synthdef_parameters\<close>, the default of each declared parameter.
\<close>

record synth =
  start_offset :: rat
  stop_offset :: rat
  events :: "string \<rightharpoonup> (rat \<times> rat) list"
  synth_kwargs :: "string \<rightharpoonup> rat"
  synthdef_parameters :: "string \<rightharpoonup> rat"

definition duration :: "synth \<Rightarrow> rat" where
  "duration s = stop_offset s - start_offset s"

definition list_insert :: "'a list \<Rightarrow> nat \<Rightarrow> 'a \<Rightarrow> 'a list" where
  "list_insert xs i x = take i xs @ x # drop i xs"

definition get_at_timestep :: "synth \<Rightarrow> rat \<Rightarrow> string \<Rightarrow> error + rat" where
  "get_at_timestep s timestep0 item =
     (let timestep = timestep0 - start_offset s in
      case synthdef_parameters s item of
        None \<Rightarrow> Inl KeyError
      | Some declared \<Rightarrow>
          (let default = (case synth_kwargs s item of None \<Rightarrow> declared | Some v \<Rightarrow> v) in
           case events s item of
             None \<Rightarrow> Inr default
           | Some evs \<Rightarrow>
               if evs = [] then Inr default
               else
                 (let index = bisect_left evs (timestep, 0);
                      old = (if length evs \<le> index then last evs else evs ! index)
                  in if fst old = timestep then Inr (snd old)
                     else if index = 0 then Inr default
                     else Inr (snd (evs ! (index - 1))))))"

definition set_at_timestep :: "synth \<Rightarrow> rat \<Rightarrow> string \<Rightarrow> rat \<Rightarrow> synth" where
  "set_at_timestep s timestep0 item v =
     (let timestep = timestep0 - start_offset s in
      if timestep < 0 \<or> duration s < timestep then s
      else
        (let evs = (case events s item of None \<Rightarrow> [] | Some e \<Rightarrow> e);
             new_event = (timestep, v)
         in if evs = [] then s\<lparr>events := (events s)(item \<mapsto> [new_event])\<rparr>
            else
              (let index = bisect_left evs new_event;
                   evs1 = (if length evs \<le> index then evs @ [new_event] else evs);
                   old = evs1 ! index;
                   evs2 = (if fst old = timestep then evs1[index := (timestep, v)]
                           else list_insert evs1 index new_event)
               in s\<lparr>events := (events s)(item \<mapsto> evs2)\<rparr>)))"


text \<open>\<^verbatim>\<open>list.index(v)\<close>: the first position of \<open>v\<close>, or \<^verbatim>\<open>ValueError\<close> (here \<open>None\<close>).\<close>

fun list_index :: "'a list \<Rightarrow> 'a \<Rightarrow> nat option" where
  "list_index [] v = None"
| "list_index (y # ys) v = (if y = v then Some 0 else map_option Suc (list_index ys v))"

section \<open>Session: offsets, states and the timeline objects\<close>

text \<open>
  \<^verbatim>\<open>supriya/nonrealtime/Session.py\<close>. An offset is a Python float that is only ever compared:
  a rational, or one of the two infinities (\<^verbatim>\<open>float("-inf")\<close> is the first entry of every
  offset list).
\<close>

datatype offset = NegInf | Fin rat | PosInf

instantiation offset :: linorder
begin

fun less_eq_offset :: "offset \<Rightarrow> offset \<Rightarrow> bool" where
  "less_eq_offset NegInf _ = True"
| "less_eq_offset _ PosInf = True"
| "less_eq_offset (Fin a) (Fin b) = (a \<le> b)"
| "less_eq_offset _ _ = False"

definition less_offset :: "offset \<Rightarrow> offset \<Rightarrow> bool" where
  "less_offset a b = (a \<le> b \<and> \<not> b \<le> a)"

instance
proof
  fix x y z :: offset
  show "(x < y) = (x \<le> y \<and> \<not> y \<le> x)" by (simp add: less_offset_def)
  show "x \<le> x" by (cases x) simp_all
  show "x \<le> y \<Longrightarrow> y \<le> z \<Longrightarrow> x \<le> z" by (cases x; cases y; cases z) simp_all
  show "x \<le> y \<Longrightarrow> y \<le> x \<Longrightarrow> x = y" by (cases x; cases y) simp_all
  show "x \<le> y \<or> y \<le> x" by (cases x; cases y) auto
qed

end

text \<open>
  Python objects are dictionary keys by identity: every timeline object carries its
  identity \<open>ref\<close>, and the id mapping is keyed by the kind of object and its identity.
\<close>

type_synonym ref = nat

datatype obj = NodeObj ref | BufferObj ref | BufferGroupObj ref | BusObj ref | BusGroupObj ref

type_synonym id_mapping = "obj \<rightharpoonup> int"

datatype calculation_rate = AUDIO | CONTROL | DEMAND | SCALAR

datatype parameter_rate = PR_AUDIO | PR_CONTROL | PR_SCALAR | PR_TRIGGER

record bus_group =
  bus_group_ref :: ref
  bus_group_calculation_rate :: calculation_rate
  bus_group_buses :: "ref list"

record bus =
  bus_ref :: ref
  calculation_rate :: calculation_rate
  bus_group :: "bus_group option"
  bus_events :: "(offset \<times> rat) list"

text \<open>
  The values of keyword arguments and event payloads: a number (a float may be infinite or
  not a number), a string, \<^verbatim>\<open>None\<close>, a tuple of integers, or a timeline object.
\<close>

datatype val =
    Num rat | Infinity | NegInfinity | NaN | Str string | NoneVal | TupleVal "int list"
  | BusVal bus | BusGroupVal bus_group
  | BufferVal ref | BufferGroupVal ref

record synthdef =
  anonymous_name :: string
  parameters :: "(string \<times> parameter_rate) list"

definition parameter_names :: "synthdef \<Rightarrow> string list" where
  "parameter_names sd = map fst (parameters sd)"

text \<open>
  A node is a Group (\<open>node_synthdef = None\<close>) or a Synth. \<^verbatim>\<open>node.duration\<close> is read as an
  attribute, as the source does.
\<close>

record node =
  node_ref :: ref
  session_id :: int
  node_synthdef :: "synthdef option"
  node_start_offset :: offset
  node_stop_offset :: offset
  node_duration :: offset
  node_synth_kwargs :: "(string \<times> val) list"

datatype buffer_request_type =
    BufferReadRequest | BufferReadChannelRequest | BufferZeroRequest | BufferFillRequest
  | BufferGenerateRequest | BufferSetRequest | BufferSetContiguousRequest
  | BufferNormalizeRequest | BufferCopyRequest | BufferWriteRequest

datatype channel_spec = NoChannels | ChannelCount nat | ChannelTuple "nat list"

record buffer_group =
  buffer_group_ref :: ref
  buffer_group_buffers :: "(ref \<times> int) list"

record buffer =
  buffer_ref :: ref
  buffer_session_id :: int
  buffer_group :: "buffer_group option"
  frame_count :: "nat option"
  channel_count :: channel_spec
  file_path :: "string option"
  starting_frame :: "nat option"
  buffer_events :: "(buffer_request_type \<times> (offset \<times> (string \<times> val) list) list) list"

datatype add_action = ADD_TO_HEAD | ADD_TO_TAIL | ADD_BEFORE | ADD_AFTER | REPLACE

datatype node_transition = NodeTransition ref ref add_action

text \<open>
  A State: its offset, the node tree (\<open>None\<close> while the state is sparse), the objects that
  start and stop at the offset, and the ordered transitions recorded there. Python sets are
  lists here, in whatever order the set iterates.
\<close>

record state =
  st_offset :: offset
  st_nodes_to_children :: "(ref \<times> ref list) list option"
  st_start_nodes :: "node list"
  st_stop_nodes :: "node list"
  st_start_buffers :: "buffer list"
  st_stop_buffers :: "buffer list"
  st_transitions :: "(node \<times> node_transition) list"

record session =
  offsets :: "offset list"
  states :: "offset \<rightharpoonup> state"
  root_node :: node
  nodes :: "node list"
  buffers :: "buffer list"
  buses :: "bus list"
  input_bus_channel_count :: nat
  output_bus_channel_count :: nat
  audio_input_bus_group :: "bus_group option"
  audio_output_bus_group :: "bus_group option"
  padding :: "rat option"

text \<open>
  \<^verbatim>\<open>State._clone\<close> is not part of the sources at hand: every function that clones a state
  takes it as the parameter \<open>clone\<close>.
\<close>

type_synonym clone_fn = "state \<Rightarrow> offset \<Rightarrow> state"

fun scan_back :: "session \<Rightarrow> nat \<Rightarrow> error + state option" where
  "scan_back s 0 =
     (case states s (offsets s ! 0) of
        None \<Rightarrow> Inl KeyError
      | Some st \<Rightarrow> if st_nodes_to_children st \<noteq> None then Inr (Some st) else Inr None)"
| "scan_back s (Suc i) =
     (case states s (offsets s ! Suc i) of
        None \<Rightarrow> Inl KeyError
      | Some st \<Rightarrow> if st_nodes_to_children st \<noteq> None then Inr (Some st) else scan_back s i)"

definition find_state_before :: "session \<Rightarrow> offset \<Rightarrow> bool \<Rightarrow> error + state option" where
  "find_state_before s x with_node_tree =
     (let offs = offsets s;
          index0 = int (bisect_left offs x);
          index1 = (if index0 = int (length offs) then index0 - 1 else index0)
      in if index1 < 0 then Inl IndexError
         else
           (let old_offset = offs ! nat index1;
                index = (if x \<le> old_offset then index1 - 1 else index1)
            in if index < 0 then Inr None
               else if with_node_tree then scan_back s (nat index)
               else (case states s (offs ! nat index) of
                       None \<Rightarrow> Inl KeyError
                     | Some st \<Rightarrow> Inr (Some st))))"

definition splice_state ::
  "session \<Rightarrow> state \<Rightarrow> state \<Rightarrow> offset \<Rightarrow> (error + state) \<times> session" where
  "splice_state s old_state st x =
     (let s1 = s\<lparr>states := (states s)(x \<mapsto> st)\<rparr>
      in case list_index (offsets s1) (st_offset old_state) of
           None \<Rightarrow> (Inl ValueError, s1)
         | Some i \<Rightarrow> (Inr st, s1\<lparr>offsets := list_insert (offsets s1) (i + 1) x\<rparr>))"

definition add_state_at :: "clone_fn \<Rightarrow> session \<Rightarrow> offset \<Rightarrow> (error + state) \<times> session" where
  "add_state_at clone s x =
     (case find_state_before s x False of
        Inl e \<Rightarrow> (Inl e, s)
      | Inr None \<Rightarrow> (Inl AttributeError, s)
      | Inr (Some old_state) \<Rightarrow> splice_state s old_state (clone old_state x) x)"

definition find_state_at ::
  "clone_fn \<Rightarrow> session \<Rightarrow> offset \<Rightarrow> bool \<Rightarrow> (error + state option) \<times> session" where
  "find_state_at clone s x clone_if_missing =
     (case states s x of
        Some st \<Rightarrow> (Inr (Some st), s)
      | None \<Rightarrow>
          if clone_if_missing then
            (case find_state_before s x True of
               Inl e \<Rightarrow> (Inl e, s)
             | Inr None \<Rightarrow> (Inl AttributeError, s)
             | Inr (Some old_state) \<Rightarrow>
                 (case splice_state s old_state (clone old_state x) x of
                    (Inl e, s') \<Rightarrow> (Inl e, s')
                  | (Inr st, s') \<Rightarrow> (Inr (Some st), s')))
          else (Inr None, s))"

text \<open>
  \<^verbatim>\<open>Session.at\<close> (\<open>at\<close> is a constant of the library already), and the cursor
  \<^verbatim>\<open>Moment(self, offset, state, propagate)\<close> it returns.
\<close>

datatype moment = Moment offset state bool

definition session_at :: "clone_fn \<Rightarrow> session \<Rightarrow> offset \<Rightarrow> bool \<Rightarrow> (error + moment) \<times> session" where
  "session_at clone s x propagate =
     (if \<not> Fin 0 \<le> x then (Inl AssertionError, s)
      else
        (case find_state_at clone s x False of
           (Inl e, s1) \<Rightarrow> (Inl e, s1)
         | (Inr (Some st), s1) \<Rightarrow>
             if states s1 (st_offset st) = None then (Inl AssertionError, s1)
             else (Inr (Moment x st propagate), s1)
         | (Inr None, s1) \<Rightarrow>
             (case add_state_at clone s1 x of
                (Inl e, s2) \<Rightarrow> (Inl e, s2)
              | (Inr st, s2) \<Rightarrow> (Inr (Moment x st propagate), s2))))"

text \<open>
  The invariant every session keeps: the offset list starts with negative infinity, is
  strictly ascending, and the states are keyed by exactly its entries, each state at the
  offset it records.
\<close>

definition session_invariant :: "session \<Rightarrow> bool" where
  "session_invariant s =
     (offsets s \<noteq> [] \<and> hd (offsets s) = NegInf \<and> sorted (offsets s) \<and> distinct (offsets s)
      \<and> dom (states s) = set (offsets s)
      \<and> (\<forall>x st. states s x = Some st \<longrightarrow> st_offset st = x))"


section \<open>The id mapping\<close>

text \<open>
  \<^verbatim>\<open>_build_id_mapping_for_buffers\<close> (the loop variable \<^verbatim>\<open>buffer_\<close> is \<open>buf\<close>): a buffer outside a group is mapped to its session id; a
  buffer in a group maps the group to the session id of its first member and every member
  to its own session id.
\<close>

fun build_buffers_loop :: "buffer list \<Rightarrow> id_mapping \<Rightarrow> error + id_mapping" where
  "build_buffers_loop [] mapping = Inr mapping"
| "build_buffers_loop (buf # rest) mapping =
     (if mapping (BufferObj (buffer_ref buf)) \<noteq> None then build_buffers_loop rest mapping
      else
        (case buffer_group buf of
           None \<Rightarrow>
             build_buffers_loop rest
               (mapping(BufferObj (buffer_ref buf) \<mapsto> buffer_session_id buf))
         | Some g \<Rightarrow>
             (case buffer_group_buffers g of
                [] \<Rightarrow> Inl IndexError
              | first # _ \<Rightarrow>
                  build_buffers_loop rest
                    (fold (\<lambda>child m. m(BufferObj (fst child) \<mapsto> snd child))
                       (buffer_group_buffers g)
                       (mapping(BufferGroupObj (buffer_group_ref g) \<mapsto> snd first))))))"

definition build_id_mapping_for_buffers :: "session \<Rightarrow> error + id_mapping" where
  "build_id_mapping_for_buffers s = build_buffers_loop (buffers s) Map.empty"

text \<open>
  Modelled from the spec: \<^verbatim>\<open>supriya.realtime.BlockAllocator\<close> is not part of the sources at
  hand. The spec describes it as handing out contiguous integer ranges; nothing is freed
  while the mapping is built, so an allocator is the first id it has not handed out yet
  (its \<^verbatim>\<open>heap_minimum\<close> at the start) and \<open>allocate\<close> returns the block's first id and the
  allocator after it.
\<close>

definition allocate :: "int \<Rightarrow> nat \<Rightarrow> int \<times> int" where
  "allocate allocator desired_block_size = (allocator, allocator + int desired_block_size)"

text \<open>
  \<^verbatim>\<open>enumerate(bus_group, start)\<close> over the member buses of a hardware bus group.
\<close>

fun enumerate_buses :: "ref list \<Rightarrow> int \<Rightarrow> id_mapping \<Rightarrow> id_mapping" where
  "enumerate_buses [] bus_id mapping = mapping"
| "enumerate_buses (b # bs) bus_id mapping =
     enumerate_buses bs (bus_id + 1) (mapping(BusObj b \<mapsto> bus_id))"

text \<open>
  The loop over \<^verbatim>\<open>self._buses\<close>, with the audio and the control allocator. The inner loop
  \<^verbatim>\<open>for bus_id in range(block_id, block_id + len(bus.bus_group)): mapping[bus] = bus_id\<close>
  writes the key \<open>bus\<close> of the outer loop at every turn.
\<close>

fun build_buses_loop :: "bus list \<Rightarrow> id_mapping \<Rightarrow> int \<Rightarrow> int \<Rightarrow> error + id_mapping" where
  "build_buses_loop [] mapping audio control = Inr mapping"
| "build_buses_loop (bus # rest) mapping audio control =
     (if mapping (BusObj (bus_ref bus)) \<noteq> None
         \<or> (case bus_group bus of
               None \<Rightarrow> False
             | Some g \<Rightarrow> mapping (BusGroupObj (bus_group_ref g)) \<noteq> None)
      then build_buses_loop rest mapping audio control
      else if calculation_rate bus \<noteq> AUDIO \<and> calculation_rate bus \<noteq> CONTROL then Inl KeyError
      else
        (let allocator = (if calculation_rate bus = AUDIO then audio else control);
             size = (case bus_group bus of None \<Rightarrow> 1 | Some g \<Rightarrow> length (bus_group_buses g));
             (block_id, allocator') = allocate allocator size;
             audio' = (if calculation_rate bus = AUDIO then allocator' else audio);
             control' = (if calculation_rate bus = AUDIO then control else allocator');
             mapping' =
               (case bus_group bus of
                  None \<Rightarrow> mapping(BusObj (bus_ref bus) \<mapsto> block_id)
                | Some g \<Rightarrow>
                    fold (\<lambda>bus_id m. m(BusObj (bus_ref bus) \<mapsto> bus_id))
                      (map (\<lambda>k. block_id + int k) [0..<length (bus_group_buses g)])
                      (mapping(BusGroupObj (bus_group_ref g) \<mapsto> block_id)))
         in build_buses_loop rest mapping' audio' control'))"

definition hardware_buses ::
  "nat \<Rightarrow> bus_group option \<Rightarrow> int \<Rightarrow> id_mapping \<Rightarrow> error + id_mapping" where
  "hardware_buses count grp first_id mapping =
     (if count = 0 then Inr mapping
      else
        (case grp of
           None \<Rightarrow> Inl TypeError
         | Some g \<Rightarrow>
             Inr (enumerate_buses (bus_group_buses g) first_id
                    (mapping(BusGroupObj (bus_group_ref g) \<mapsto> first_id)))))"

definition build_id_mapping_for_buses :: "session \<Rightarrow> error + id_mapping" where
  "build_id_mapping_for_buses s =
     (let input_count = input_bus_channel_count s;
          output_count = output_bus_channel_count s;
          first_private_bus_id = int input_count + int output_count
      in case hardware_buses output_count (audio_output_bus_group s) 0 Map.empty of
           Inl e \<Rightarrow> Inl e
         | Inr m1 \<Rightarrow>
             (case hardware_buses input_count (audio_input_bus_group s) (int output_count) m1 of
                Inl e \<Rightarrow> Inl e
              | Inr m2 \<Rightarrow> build_buses_loop (buses s) m2 first_private_bus_id 0))"

text \<open>
  \<^verbatim>\<open>_build_id_mapping_for_nodes\<close>: the root is 0, and the nodes that start at each offset
  after the first, sorted by session id, are mapped to their session id (the id drawn from
  the \<^verbatim>\<open>NodeIdAllocator\<close> is overwritten in the next statement and leaves no trace).
\<close>

fun build_nodes_loop :: "(offset \<rightharpoonup> state) \<Rightarrow> offset list \<Rightarrow> id_mapping \<Rightarrow> error + id_mapping" where
  "build_nodes_loop sts [] mapping = Inr mapping"
| "build_nodes_loop sts (x # rest) mapping =
     (case sts x of
        None \<Rightarrow> Inl KeyError
      | Some st \<Rightarrow>
          build_nodes_loop sts rest
            (fold (\<lambda>node m. m(NodeObj (node_ref node) \<mapsto> session_id node))
               (sort_key session_id (st_start_nodes st)) mapping))"

definition build_id_mapping_for_nodes :: "session \<Rightarrow> error + id_mapping" where
  "build_id_mapping_for_nodes s =
     build_nodes_loop (states s) (tl (offsets s)) [NodeObj (node_ref (root_node s)) \<mapsto> 0]"

text \<open>\<^verbatim>\<open>dict.update\<close>: the entries of the second dictionary win.\<close>

definition build_id_mapping :: "session \<Rightarrow> error + id_mapping" where
  "build_id_mapping s =
     (case build_id_mapping_for_buffers s of
        Inl e \<Rightarrow> Inl e
      | Inr for_buffers \<Rightarrow>
          (case build_id_mapping_for_buses s of
             Inl e \<Rightarrow> Inl e
           | Inr for_buses \<Rightarrow>
               (case build_id_mapping_for_nodes s of
                  Inl e \<Rightarrow> Inl e
                | Inr for_nodes \<Rightarrow> Inr (for_buffers ++ for_buses ++ for_nodes))))"

section \<open>Small objects to evaluate on\<close>

text \<open>
  A synth from 2 to 5 with one breakpoint, the session as
  \<^verbatim>\<open>Session(input_bus_channel_count=2, output_bus_channel_count=2)\<close> leaves it (offsets negative infinity and 0), and a
  \<open>clone\<close> that copies the tree shape into a state with nothing recorded.
\<close>

definition example_synth :: synth where
  "example_synth = \<lparr>start_offset = 2, stop_offset = 5,
     events = [''freq'' \<mapsto> [(1, 440)]], synth_kwargs = Map.empty,
     synthdef_parameters = [''freq'' \<mapsto> 440, ''amp'' \<mapsto> 1]\<rparr>"

definition example_root :: node where
  "example_root = \<lparr>node_ref = 0, session_id = 0, node_synthdef = None,
     node_start_offset = NegInf, node_stop_offset = PosInf, node_duration = PosInf,
     node_synth_kwargs = []\<rparr>"

definition empty_state :: "offset \<Rightarrow> state" where
  "empty_state x = \<lparr>st_offset = x, st_nodes_to_children = Some [(0, [])],
     st_start_nodes = [], st_stop_nodes = [], st_start_buffers = [], st_stop_buffers = [],
     st_transitions = []\<rparr>"

definition example_clone :: clone_fn where
  "example_clone st x = st\<lparr>st_offset := x, st_start_nodes := [], st_stop_nodes := [],
     st_start_buffers := [], st_stop_buffers := [], st_transitions := []\<rparr>"

definition empty_session :: session where
  "empty_session = \<lparr>offsets = [NegInf, Fin 0],
     states = [NegInf \<mapsto> empty_state NegInf, Fin 0 \<mapsto> empty_state (Fin 0)],
     root_node = example_root, nodes = [], buffers = [], buses = [],
     input_bus_channel_count = 2, output_bus_channel_count = 2,
     audio_input_bus_group = Some \<lparr>bus_group_ref = 30, bus_group_calculation_rate = AUDIO,
                                   bus_group_buses = [31, 32]\<rparr>,
     audio_output_bus_group = Some \<lparr>bus_group_ref = 20, bus_group_calculation_rate = AUDIO,
                                    bus_group_buses = [21, 22]\<rparr>,
     padding = None\<rparr>"

text \<open>
  A session with two nodes and a buffer that live from 0 to 10, and a session with a group
  of two control buses.
\<close>

definition example_synthdef :: synthdef where
  "example_synthdef = \<lparr>anonymous_name = ''9c4eb4778dc0faf3'',
     parameters = [(''frequency'', PR_CONTROL), (''gate'', PR_CONTROL)]\<rparr>"

definition example_synth_node :: node where
  "example_synth_node = \<lparr>node_ref = 1, session_id = 1000, node_synthdef = Some example_synthdef,
     node_start_offset = Fin 0, node_stop_offset = Fin 10, node_duration = Fin 10,
     node_synth_kwargs = []\<rparr>"

definition example_group_node :: node where
  "example_group_node = \<lparr>node_ref = 2, session_id = 1001, node_synthdef = None,
     node_start_offset = Fin 0, node_stop_offset = Fin 10, node_duration = Fin 10,
     node_synth_kwargs = []\<rparr>"

definition example_buffer :: buffer where
  "example_buffer = \<lparr>buffer_ref = 3, buffer_session_id = 0, buffer_group = None,
     frame_count = Some 1024, channel_count = ChannelCount 1, file_path = None,
     starting_frame = None, buffer_events = []\<rparr>"

definition timeline_session :: session where
  "timeline_session = empty_session\<lparr>
     offsets := [NegInf, Fin 0, Fin 10],
     states := [NegInf \<mapsto> empty_state NegInf,
                Fin 0 \<mapsto> (empty_state (Fin 0))\<lparr>
                   st_start_nodes := [example_group_node, example_synth_node],
                   st_start_buffers := [example_buffer],
                   st_transitions := [(example_synth_node, NodeTransition 1 0 ADD_TO_HEAD),
                                   (example_group_node, NodeTransition 2 0 ADD_TO_HEAD)]\<rparr>,
                Fin 10 \<mapsto> (empty_state (Fin 10))\<lparr>
                   st_stop_nodes := [example_group_node, example_synth_node],
                   st_stop_buffers := [example_buffer]\<rparr>],
     nodes := [example_synth_node, example_group_node],
     buffers := [example_buffer]\<rparr>"

definition bus_session :: session where
  "bus_session = empty_session\<lparr>
     buses := [\<lparr>bus_ref = 1, calculation_rate = CONTROL,
                 bus_group = Some \<lparr>bus_group_ref = 10, bus_group_calculation_rate = CONTROL,
                                    bus_group_buses = [1, 2]\<rparr>, bus_events = []\<rparr>,
               \<lparr>bus_ref = 2, calculation_rate = CONTROL,
                 bus_group = Some \<lparr>bus_group_ref = 10, bus_group_calculation_rate = CONTROL,
                                    bus_group_buses = [1, 2]\<rparr>, bus_events = []\<rparr>]\<rparr>"

section \<open>Requests\<close>

text \<open>
  The request classes of \<^verbatim>\<open>supriya.commands\<close> that the session emits, each with the
  arguments it is built from. \<^verbatim>\<open>Node._to_request\<close> and \<^verbatim>\<open>NodeTransition._to_request\<close> are
  not part of the sources at hand: what they build is a value of the type parameter \<open>'r\<close>,
  wrapped in \<open>NodeTreeRequest\<close>. A buffer request built from a recorded event is its class
  and its keyword arguments.
\<close>

datatype 'r request =
    SynthDefReceiveRequest synthdef
  | BufferAllocateRequest int nat channel_spec
  | BufferAllocateReadRequest int "nat option" string "nat option"
  | BufferAllocateReadChannelRequest int "nat option" string "nat option" "nat list"
  | BufferRequest buffer_request_type "(string \<times> val) list"
  | BufferCloseRequest val
  | BufferFreeRequest int
  | NodeTreeRequest 'r
  | ControlBusSetRequest "(int \<times> rat) list"
  | NodeSetRequest int "(string \<times> val) list"
  | NodeMapToAudioBusRequest int "(string \<times> int) list"
  | NodeMapToControlBusRequest int "(string \<times> int) list"
  | NodeFreeRequest "int list"
  | NothingRequest

datatype 'r request_bundle = RequestBundle (contents: "'r request list") (timestamp: offset)

definition err_bind :: "error + 'a \<Rightarrow> ('a \<Rightarrow> error + 'b) \<Rightarrow> error + 'b" where
  "err_bind m f = (case m of Inl e \<Rightarrow> Inl e | Inr x \<Rightarrow> f x)"

text \<open>\<^verbatim>\<open>id_mapping[key]\<close>, which raises \<^verbatim>\<open>KeyError\<close> on a missing key.\<close>

definition lookup_id :: "id_mapping \<Rightarrow> obj \<Rightarrow> error + int" where
  "lookup_id id_mapping k = (case id_mapping k of None \<Rightarrow> Inl KeyError | Some i \<Rightarrow> Inr i)"

text \<open>Dictionaries whose order of keys is observed are association lists.\<close>

fun dict_set :: "('k \<times> 'v) list \<Rightarrow> 'k \<Rightarrow> 'v \<Rightarrow> ('k \<times> 'v) list" where
  "dict_set [] k v = [(k, v)]"
| "dict_set ((k', v') # rest) k v =
     (if k' = k then (k, v) # rest else (k', v') # dict_set rest k v)"

definition dict_update :: "('k \<times> 'v) list \<Rightarrow> ('k \<times> 'v) list \<Rightarrow> ('k \<times> 'v) list" where
  "dict_update d other = fold (\<lambda>(k, v) acc. dict_set acc k v) other d"

section \<open>The collectors of one offset\<close>

text \<open>
  \<^verbatim>\<open>_collect_node_free_requests\<close>. The loop sorts the ids of the stopping nodes into
  \<^verbatim>\<open>gate_ids\<close> (a synth whose definition has a parameter "gate"), \<^verbatim>\<open>free_ids\<close> (any other
  node whose duration is not zero) or neither.
\<close>

definition has_gate :: "node \<Rightarrow> bool" where
  "has_gate n = (case node_synthdef n of
                   None \<Rightarrow> False
                 | Some sd \<Rightarrow> ''gate'' \<in> set (parameter_names sd))"

fun split_stop_nodes ::
  "id_mapping \<Rightarrow> node list \<Rightarrow> int list \<Rightarrow> int list \<Rightarrow> error + (int list \<times> int list)" where
  "split_stop_nodes id_mapping [] free_ids gate_ids = Inr (free_ids, gate_ids)"
| "split_stop_nodes id_mapping (n # rest) free_ids gate_ids =
     (case id_mapping (NodeObj (node_ref n)) of
        None \<Rightarrow> Inl KeyError
      | Some node_id \<Rightarrow>
          if has_gate n then split_stop_nodes id_mapping rest free_ids (gate_ids @ [node_id])
          else if node_duration n \<noteq> Fin 0
            then split_stop_nodes id_mapping rest (free_ids @ [node_id]) gate_ids
          else split_stop_nodes id_mapping rest free_ids gate_ids)"

definition collect_node_free_requests :: "id_mapping \<Rightarrow> node list \<Rightarrow> error + 'r request list" where
  "collect_node_free_requests id_mapping stopping =
     (if stopping = [] then Inr []
      else
        (case split_stop_nodes id_mapping stopping [] [] of
           Inl e \<Rightarrow> Inl e
         | Inr (free_ids, gate_ids) \<Rightarrow>
             Inr ((if sort free_ids \<noteq> [] then [NodeFreeRequest (sort free_ids)] else [])
                  @ map (\<lambda>node_id. NodeSetRequest node_id [(''gate'', Num 0)])
                      (sort gate_ids))))"

text \<open>
  The synth that \<^verbatim>\<open>Session.set_rand_seed\<close> adds (\<^verbatim>\<open>duration=0\<close>) starts and stops at the
  same offset; its definition has no parameter "gate".
\<close>

definition rand_seed_synthdef :: synthdef where
  "rand_seed_synthdef = \<lparr>anonymous_name = ''rand_seed'',
     parameters = [(''rand_id'', PR_SCALAR), (''rand_seed'', PR_SCALAR)]\<rparr>"

definition rand_seed_node :: node where
  "rand_seed_node = \<lparr>node_ref = 4, session_id = 1002, node_synthdef = Some rand_seed_synthdef,
     node_start_offset = Fin 0, node_stop_offset = Fin 0, node_duration = Fin 0,
     node_synth_kwargs = [(''rand_id'', Num 0), (''rand_seed'', Num 0)]\<rparr>"

definition example_id_mapping :: id_mapping where
  "example_id_mapping = [NodeObj 0 \<mapsto> 0, NodeObj 1 \<mapsto> 1000, NodeObj 2 \<mapsto> 1001,
     NodeObj 4 \<mapsto> 1002, BufferObj 3 \<mapsto> 0]"

section \<open>The collaborators of the request compiler\<close>

text \<open>
  The classes \<^verbatim>\<open>State\<close>, \<^verbatim>\<open>Node\<close> and \<^verbatim>\<open>NodeTransition\<close> are not part of the sources at
  hand. What the session calls on them is a parameter of every function below, gathered in
  one record: \<^verbatim>\<open>state._iterate_nodes(root_node, nodes_to_children)\<close>,
  \<^verbatim>\<open>node._collect_settings(offset, id_mapping=id_mapping, persistent=False)\<close>,
  \<^verbatim>\<open>source._to_request(action, id_mapping, **synth_kwargs)\<close>,
  \<^verbatim>\<open>action._to_request(id_mapping)\<close>, \<^verbatim>\<open>state.overlap_nodes\<close> and \<^verbatim>\<open>state.overlap_buffers\<close>.
  Each call may raise.
\<close>

record 'r collaborators =
  iterate_nodes :: "state \<Rightarrow> node \<Rightarrow> (ref \<times> ref list) list option \<Rightarrow> error + node list"
  collect_settings :: "node \<Rightarrow> offset \<Rightarrow> id_mapping \<Rightarrow> error + (string \<times> val) list"
  node_to_request ::
    "node \<Rightarrow> node_transition \<Rightarrow> id_mapping \<Rightarrow> (string \<times> val) list \<Rightarrow> error + 'r"
  action_to_request :: "node_transition \<Rightarrow> id_mapping \<Rightarrow> error + 'r"
  overlap_nodes :: "session \<Rightarrow> state \<Rightarrow> node list"
  overlap_buffers :: "session \<Rightarrow> state \<Rightarrow> buffer list"

text \<open>Truth of a value (\<^verbatim>\<open>bool(value)\<close>), and the key a timeline object has in the id mapping.\<close>

fun truthy :: "val \<Rightarrow> bool" where
  "truthy (Num r) = (r \<noteq> 0)"
| "truthy NoneVal = False"
| "truthy (Str s) = (s \<noteq> [])"
| "truthy (TupleVal xs) = (xs \<noteq> [])"
| "truthy _ = True"

fun val_obj :: "val \<Rightarrow> obj option" where
  "val_obj (BusVal b) = Some (BusObj (bus_ref b))"
| "val_obj (BusGroupVal g) = Some (BusGroupObj (bus_group_ref g))"
| "val_obj (BufferVal r) = Some (BufferObj r)"
| "val_obj (BufferGroupVal r) = Some (BufferGroupObj r)"
| "val_obj _ = None"

text \<open>\<^verbatim>\<open>float(x)\<close> of an offset, and the difference of two offsets.\<close>

fun float_val :: "offset \<Rightarrow> val" where
  "float_val NegInf = NegInfinity"
| "float_val (Fin r) = Num r"
| "float_val PosInf = Infinity"

fun offset_minus :: "offset \<Rightarrow> offset \<Rightarrow> val" where
  "offset_minus (Fin a) (Fin b) = Num (a - b)"
| "offset_minus (Fin a) PosInf = NegInfinity"
| "offset_minus (Fin a) NegInf = Infinity"
| "offset_minus PosInf PosInf = NaN"
| "offset_minus PosInf _ = Infinity"
| "offset_minus NegInf NegInf = NaN"
| "offset_minus NegInf _ = NegInfinity"

text \<open>
  Dictionaries keyed by a node are keyed by its identity. A Python set of nodes or buffers
  that is updated with another keeps its members and adds the new ones.
\<close>

fun node_dict_get :: "(node \<times> 'v) list \<Rightarrow> node \<Rightarrow> 'v option" where
  "node_dict_get [] n = None"
| "node_dict_get ((k, v) # rest) n =
     (if node_ref k = node_ref n then Some v else node_dict_get rest n)"

fun node_dict_set :: "(node \<times> 'v) list \<Rightarrow> node \<Rightarrow> 'v \<Rightarrow> (node \<times> 'v) list" where
  "node_dict_set [] n v = [(n, v)]"
| "node_dict_set ((k, v') # rest) n v =
     (if node_ref k = node_ref n then (k, v) # rest else (k, v') # node_dict_set rest n v)"

definition node_dict_pop :: "(node \<times> 'v) list \<Rightarrow> node \<Rightarrow> (node \<times> 'v) list" where
  "node_dict_pop d n = filter (\<lambda>(k, v). node_ref k \<noteq> node_ref n) d"

definition update_nodes :: "node list \<Rightarrow> node list \<Rightarrow> node list" where
  "update_nodes xs ys =
     fold (\<lambda>y acc. if node_ref y \<in> node_ref ` set acc then acc else acc @ [y]) ys xs"

definition update_buffers :: "buffer list \<Rightarrow> buffer list \<Rightarrow> buffer list" where
  "update_buffers xs ys =
     fold (\<lambda>y acc. if buffer_ref y \<in> buffer_ref ` set acc then acc else acc @ [y]) ys xs"

section \<open>Settings gathered once per render\<close>

text \<open>
  \<^verbatim>\<open>_collect_buffer_settings\<close>. The events of every buffer, in the order of the buffers'
  ids, are filed by offset and by the event type they were recorded under. Each payload
  value that is a key of the id mapping is replaced by its id (a value that cannot be hashed
  is left as it is, like a value that is no key). A read event whose payload has channel
  indices other than \<^verbatim>\<open>None\<close> becomes a \<^verbatim>\<open>BufferReadChannelRequest\<close>, filed under the read type.
\<close>

type_synonym 'r buffer_settings =
  "(offset \<times> (buffer_request_type \<times> 'r request list) list) list"

definition translate_payload :: "id_mapping \<Rightarrow> (string \<times> val) list \<Rightarrow> (string \<times> val) list" where
  "translate_payload id_mapping payload =
     map (\<lambda>(key, v). (key, case val_obj v of
                              None \<Rightarrow> v
                            | Some k \<Rightarrow> (case id_mapping k of
                                          None \<Rightarrow> v
                                        | Some i \<Rightarrow> Num (of_int i)))) payload"

definition event_request :: "buffer_request_type \<Rightarrow> (string \<times> val) list \<Rightarrow> 'r request" where
  "event_request event_type payload =
     (if event_type = BufferReadRequest then
        (case map_of payload ''channel_indices'' of
           None \<Rightarrow> BufferRequest BufferReadRequest payload
         | Some v \<Rightarrow>
             if v \<noteq> NoneVal then BufferRequest BufferReadChannelRequest payload
             else BufferRequest BufferReadRequest
                    (filter (\<lambda>(key, v). key \<noteq> ''channel_indices'') payload))
      else BufferRequest event_type payload)"

definition file_event ::
  "'r buffer_settings \<Rightarrow> offset \<Rightarrow> buffer_request_type \<Rightarrow> 'r request \<Rightarrow> 'r buffer_settings" where
  "file_event buffer_settings x event_type event =
     (let offset_settings = (case map_of buffer_settings x of None \<Rightarrow> [] | Some d \<Rightarrow> d);
          event_type_settings =
            (case map_of offset_settings event_type of None \<Rightarrow> [] | Some l \<Rightarrow> l)
      in dict_set buffer_settings x
           (dict_set offset_settings event_type (event_type_settings @ [event])))"

definition file_buffer_events ::
  "id_mapping \<Rightarrow> buffer \<Rightarrow> 'r buffer_settings \<Rightarrow> 'r buffer_settings" where
  "file_buffer_events id_mapping buf buffer_settings =
     fold (\<lambda>(event_type, evs) acc.
             fold (\<lambda>(x, payload) acc'.
                     file_event acc' x event_type
                       (event_request event_type (translate_payload id_mapping payload)))
               evs acc)
       (buffer_events buf) buffer_settings"

definition collect_buffer_settings :: "session \<Rightarrow> id_mapping \<Rightarrow> error + 'r buffer_settings" where
  "collect_buffer_settings s id_mapping =
     (if \<exists>buf\<in>set (buffers s). id_mapping (BufferObj (buffer_ref buf)) = None then Inl KeyError
      else Inr (fold (file_buffer_events id_mapping)
                  (sort_key (\<lambda>buf. the (id_mapping (BufferObj (buffer_ref buf)))) (buffers s))
                  []))"

text \<open>\<^verbatim>\<open>_collect_bus_settings\<close>: the events of the control buses, by offset and bus id.\<close>

type_synonym bus_settings = "(offset \<times> (int \<times> rat) list) list"

fun collect_bus_settings_loop :: "bus list \<Rightarrow> id_mapping \<Rightarrow> bus_settings \<Rightarrow> error + bus_settings" where
  "collect_bus_settings_loop [] id_mapping bus_settings = Inr bus_settings"
| "collect_bus_settings_loop (bus # rest) id_mapping bus_settings =
     (if calculation_rate bus \<noteq> CONTROL then collect_bus_settings_loop rest id_mapping bus_settings
      else
        (case id_mapping (BusObj (bus_ref bus)) of
           None \<Rightarrow> Inl KeyError
         | Some bus_id \<Rightarrow>
             collect_bus_settings_loop rest id_mapping
               (fold (\<lambda>(x, v) acc.
                        dict_set acc x
                          (dict_set (case map_of acc x of None \<Rightarrow> [] | Some d \<Rightarrow> d) bus_id v))
                  (bus_events bus) bus_settings)))"

definition collect_bus_settings :: "session \<Rightarrow> id_mapping \<Rightarrow> error + bus_settings" where
  "collect_bus_settings s id_mapping = collect_bus_settings_loop (buses s) id_mapping []"

section \<open>The other collectors of one offset\<close>

text \<open>\<^verbatim>\<open>_collect_bus_set_requests\<close>.\<close>

definition collect_bus_set_requests :: "bus_settings \<Rightarrow> offset \<Rightarrow> 'r request list" where
  "collect_bus_set_requests bus_settings x =
     (case map_of bus_settings x of
        None \<Rightarrow> []
      | Some d \<Rightarrow> [ControlBusSetRequest (sort d)])"

text \<open>
  \<^verbatim>\<open>_collect_synthdef_requests\<close>. The set \<^verbatim>\<open>synthdefs\<close> is the list of the definitions added
  to it, which \<^verbatim>\<open>sorted\<close> orders by their anonymous name.
\<close>

fun visit_synthdefs ::
  "node list \<Rightarrow> synthdef list \<Rightarrow> synthdef list \<Rightarrow> synthdef list \<times> synthdef list" where
  "visit_synthdefs [] synthdefs visited_synthdefs = (synthdefs, visited_synthdefs)"
| "visit_synthdefs (n # rest) synthdefs visited_synthdefs =
     (case node_synthdef n of
        None \<Rightarrow> visit_synthdefs rest synthdefs visited_synthdefs
      | Some sd \<Rightarrow>
          if sd \<in> set visited_synthdefs then visit_synthdefs rest synthdefs visited_synthdefs
          else visit_synthdefs rest (List.insert sd synthdefs) (visited_synthdefs @ [sd]))"

definition collect_synthdef_requests ::
  "node list \<Rightarrow> synthdef list \<Rightarrow> 'r request list \<times> synthdef list" where
  "collect_synthdef_requests starting visited_synthdefs =
     (case visit_synthdefs starting [] visited_synthdefs of
        (synthdefs, visited) \<Rightarrow>
          (map SynthDefReceiveRequest (sort_key anonymous_name synthdefs), visited))"

text \<open>
  \<^verbatim>\<open>_collect_buffer_allocate_requests\<close>. \<^verbatim>\<open>buffer_open_states\<close> is keyed by buffer id, as a
  value: \<^verbatim>\<open>_collect_buffer_nonlifecycle_requests\<close> reads it at the \<^verbatim>\<open>buffer_id\<close> of a request.
\<close>

type_synonym buffer_open_states = "val \<rightharpoonup> bool"

definition allocate_request :: "int \<Rightarrow> buffer \<Rightarrow> 'r request" where
  "allocate_request buffer_id buf =
     (case file_path buf of
        Some path \<Rightarrow>
          (case channel_count buf of
             ChannelCount n \<Rightarrow>
               BufferAllocateReadChannelRequest buffer_id (frame_count buf) path
                 (starting_frame buf) [0..<n]
           | ChannelTuple channel_indices \<Rightarrow>
               BufferAllocateReadChannelRequest buffer_id (frame_count buf) path
                 (starting_frame buf) channel_indices
           | NoChannels \<Rightarrow>
               BufferAllocateReadRequest buffer_id (frame_count buf) path (starting_frame buf))
      | None \<Rightarrow>
          BufferAllocateRequest buffer_id
            (case frame_count buf of None \<Rightarrow> 1 | Some n \<Rightarrow> if n = 0 then 1 else n)
            (case channel_count buf of
               NoChannels \<Rightarrow> ChannelCount 1
             | ChannelCount n \<Rightarrow> if n = 0 then ChannelCount 1 else ChannelCount n
             | ChannelTuple xs \<Rightarrow> if xs = [] then ChannelCount 1 else ChannelTuple xs))"

fun buffer_allocate_loop ::
  "id_mapping \<Rightarrow> buffer list \<Rightarrow> buffer_open_states \<Rightarrow> 'r request list
     \<Rightarrow> error + ('r request list \<times> buffer_open_states)" where
  "buffer_allocate_loop id_mapping [] open_states requests = Inr (requests, open_states)"
| "buffer_allocate_loop id_mapping (buf # rest) open_states requests =
     (case id_mapping (BufferObj (buffer_ref buf)) of
        None \<Rightarrow> Inl KeyError
      | Some buffer_id \<Rightarrow>
          buffer_allocate_loop id_mapping rest
            (open_states(Num (of_int buffer_id) \<mapsto> False))
            (requests @ [allocate_request buffer_id buf]))"

definition collect_buffer_allocate_requests ::
  "buffer_open_states \<Rightarrow> id_mapping \<Rightarrow> buffer list
     \<Rightarrow> error + ('r request list \<times> buffer_open_states)" where
  "collect_buffer_allocate_requests open_states id_mapping starting =
     (if starting = [] then Inr ([], open_states)
      else buffer_allocate_loop id_mapping (sort_key buffer_session_id starting) open_states [])"

text \<open>\<^verbatim>\<open>_collect_buffer_free_requests\<close>.\<close>

fun buffer_free_loop ::
  "id_mapping \<Rightarrow> buffer list \<Rightarrow> buffer_open_states \<Rightarrow> 'r request list
     \<Rightarrow> error + ('r request list \<times> buffer_open_states)" where
  "buffer_free_loop id_mapping [] open_states requests = Inr (requests, open_states)"
| "buffer_free_loop id_mapping (buf # rest) open_states requests =
     (case id_mapping (BufferObj (buffer_ref buf)) of
        None \<Rightarrow> Inl KeyError
      | Some buffer_id \<Rightarrow>
          (case open_states (Num (of_int buffer_id)) of
             None \<Rightarrow> Inl KeyError
           | Some is_open \<Rightarrow>
               buffer_free_loop id_mapping rest
                 (open_states(Num (of_int buffer_id) := None))
                 (requests
                  @ (if is_open then [BufferCloseRequest (Num (of_int buffer_id))] else [])
                  @ [BufferFreeRequest buffer_id])))"

definition collect_buffer_free_requests ::
  "buffer_open_states \<Rightarrow> id_mapping \<Rightarrow> buffer list
     \<Rightarrow> error + ('r request list \<times> buffer_open_states)" where
  "collect_buffer_free_requests open_states id_mapping stopping =
     (if stopping = [] then Inr ([], open_states)
      else buffer_free_loop id_mapping (sort_key buffer_session_id stopping) open_states [])"

text \<open>
  \<^verbatim>\<open>_collect_buffer_nonlifecycle_requests\<close>. The attributes \<^verbatim>\<open>buffer_id\<close> and \<^verbatim>\<open>leave_open\<close>
  of a request built from an event are its keyword arguments of these names. The argument
  \<^verbatim>\<open>all_buffers\<close> is never read.
\<close>

definition ordered_buffer_post_alloc_request_types :: "buffer_request_type list" where
  "ordered_buffer_post_alloc_request_types =
     [BufferReadRequest, BufferReadChannelRequest, BufferZeroRequest, BufferFillRequest,
      BufferGenerateRequest, BufferSetRequest, BufferSetContiguousRequest,
      BufferNormalizeRequest, BufferCopyRequest]"

definition ordered_buffer_pre_free_request_types :: "buffer_request_type list" where
  "ordered_buffer_pre_free_request_types = [BufferWriteRequest]"

fun request_argument :: "'r request \<Rightarrow> string \<Rightarrow> val" where
  "request_argument (BufferRequest t payload) name =
     (case map_of payload name of None \<Rightarrow> NoneVal | Some v \<Rightarrow> v)"
| "request_argument _ name = NoneVal"

fun close_and_append ::
  "'r request list \<Rightarrow> buffer_open_states \<Rightarrow> 'r request list
     \<Rightarrow> error + ('r request list \<times> buffer_open_states)" where
  "close_and_append [] open_states requests = Inr (requests, open_states)"
| "close_and_append (request # rest) open_states requests =
     (let buffer_id = request_argument request ''buffer_id'' in
      case open_states buffer_id of
        None \<Rightarrow> Inl KeyError
      | Some open_state \<Rightarrow>
          close_and_append rest
            (open_states(buffer_id \<mapsto> truthy (request_argument request ''leave_open'')))
            (requests @ (if open_state then [BufferCloseRequest buffer_id] else [])
             @ [request]))"

fun nonlifecycle_loop ::
  "(buffer_request_type \<times> 'r request list) list \<Rightarrow> buffer_request_type list
     \<Rightarrow> buffer_open_states \<Rightarrow> 'r request list
     \<Rightarrow> error + ('r request list \<times> buffer_open_states)" where
  "nonlifecycle_loop offset_settings [] open_states requests = Inr (requests, open_states)"
| "nonlifecycle_loop offset_settings (request_type # rest) open_states requests =
     (case map_of offset_settings request_type of
        None \<Rightarrow> nonlifecycle_loop offset_settings rest open_states requests
      | Some buffer_requests \<Rightarrow>
          if buffer_requests = [] then nonlifecycle_loop offset_settings rest open_states requests
          else if request_type \<in> {BufferReadRequest, BufferReadChannelRequest, BufferWriteRequest}
          then
            (case close_and_append buffer_requests open_states requests of
               Inl e \<Rightarrow> Inl e
             | Inr (requests', open_states') \<Rightarrow>
                 nonlifecycle_loop offset_settings rest open_states' requests')
          else nonlifecycle_loop offset_settings rest open_states (requests @ buffer_requests))"

definition collect_buffer_nonlifecycle_requests ::
  "buffer_open_states \<Rightarrow> 'r buffer_settings \<Rightarrow> offset \<Rightarrow> buffer_request_type list
     \<Rightarrow> error + ('r request list \<times> buffer_open_states)" where
  "collect_buffer_nonlifecycle_requests open_states buffer_settings x request_types =
     (case map_of buffer_settings x of
        None \<Rightarrow> Inr ([], open_states)
      | Some offset_settings \<Rightarrow>
          if offset_settings = [] then Inr ([], open_states)
          else nonlifecycle_loop offset_settings request_types open_states [])"

text \<open>
  \<^verbatim>\<open>_collect_durated_objects\<close>. It looks the state of the offset up with
  \<^verbatim>\<open>clone_if_missing=True\<close>, which may add a state to the session. The sets \<^verbatim>\<open>all_buffers\<close>
  and \<^verbatim>\<open>all_nodes\<close> that it also returns are read by no caller and are left out.
\<close>

definition collect_durated_objects ::
  "'r collaborators \<Rightarrow> clone_fn \<Rightarrow> session \<Rightarrow> offset \<Rightarrow> bool
     \<Rightarrow> (error + (buffer list \<times> node list \<times> buffer list \<times> node list)) \<times> session" where
  "collect_durated_objects C clone s x is_last_offset =
     (case find_state_at clone s x True of
        (Inl e, s') \<Rightarrow> (Inl e, s')
      | (Inr None, s') \<Rightarrow> (Inl AttributeError, s')
      | (Inr (Some st), s') \<Rightarrow>
          (Inr (st_start_buffers st, st_start_nodes st,
                (if is_last_offset
                 then update_buffers (st_stop_buffers st) (overlap_buffers C s' st)
                 else st_stop_buffers st),
                (if is_last_offset
                 then update_nodes (st_stop_nodes st) (overlap_nodes C s' st)
                 else st_stop_nodes st)), s'))"

text \<open>\<^verbatim>\<open>_collect_node_settings\<close>: an ordered dictionary from node to its settings.\<close>

type_synonym node_settings = "(node \<times> (string \<times> val) list) list"

fun node_settings_loop ::
  "'r collaborators \<Rightarrow> offset \<Rightarrow> id_mapping \<Rightarrow> node list \<Rightarrow> node_settings
     \<Rightarrow> error + node_settings" where
  "node_settings_loop C x id_mapping [] result = Inr result"
| "node_settings_loop C x id_mapping (n # rest) result =
     (case collect_settings C n x id_mapping of
        Inl e \<Rightarrow> Inl e
      | Inr settings \<Rightarrow>
          node_settings_loop C x id_mapping rest
            (if settings \<noteq> [] then node_dict_set result n settings else result))"

definition collect_node_settings ::
  "'r collaborators \<Rightarrow> session \<Rightarrow> offset \<Rightarrow> state \<Rightarrow> id_mapping \<Rightarrow> error + node_settings" where
  "collect_node_settings C s x st id_mapping =
     (case (if st_nodes_to_children st = None then
              (case find_state_before s x True of
                 Inl e \<Rightarrow> Inl e
               | Inr None \<Rightarrow> Inl AttributeError
               | Inr (Some st') \<Rightarrow> iterate_nodes C st' (root_node s) (st_nodes_to_children st'))
            else iterate_nodes C st (root_node s) (st_nodes_to_children st)) of
        Inl e \<Rightarrow> Inl e
      | Inr iterator \<Rightarrow> node_settings_loop C x id_mapping iterator [])"

text \<open>
  \<^verbatim>\<open>_collect_node_action_requests\<close>. The keyword arguments of a starting synth are a copy of
  \<^verbatim>\<open>source.synth_kwargs\<close> (the property copies the dictionary in \<^verbatim>\<open>Synth.py\<close>), updated with
  the settings of the synth at this offset, which are taken out of \<^verbatim>\<open>node_settings\<close>, and
  with the duration when the definition has a parameter of that name. \<open>dur\<close> is the
  parameter \<^verbatim>\<open>duration\<close>.
\<close>

fun node_action_loop ::
  "'r collaborators \<Rightarrow> offset \<Rightarrow> id_mapping \<Rightarrow> (node \<times> node_transition) list \<Rightarrow> node list
     \<Rightarrow> node_settings \<Rightarrow> 'r request list \<Rightarrow> error + ('r request list \<times> node_settings)" where
  "node_action_loop C dur id_mapping [] starting node_settings requests =
     Inr (requests, node_settings)"
| "node_action_loop C dur id_mapping ((source, action) # rest) starting node_settings requests =
     (if node_ref source \<in> node_ref ` set starting then
        (case node_synthdef source of
           Some sd \<Rightarrow>
             (let kwargs1 = (case node_dict_get node_settings source of
                               None \<Rightarrow> node_synth_kwargs source
                             | Some settings \<Rightarrow> dict_update (node_synth_kwargs source) settings);
                  node_settings' = node_dict_pop node_settings source;
                  kwargs2 =
                    (if ''duration'' \<in> set (parameter_names sd) then
                       dict_set kwargs1 ''duration''
                         (if dur < node_stop_offset source
                          then offset_minus dur (node_start_offset source)
                          else float_val (node_duration source))
                     else kwargs1)
              in case node_to_request C source action id_mapping kwargs2 of
                   Inl e \<Rightarrow> Inl e
                 | Inr r \<Rightarrow>
                     node_action_loop C dur id_mapping rest starting node_settings'
                       (requests @ [NodeTreeRequest r]))
         | None \<Rightarrow>
             (case node_to_request C source action id_mapping [] of
                Inl e \<Rightarrow> Inl e
              | Inr r \<Rightarrow>
                  node_action_loop C dur id_mapping rest starting node_settings
                    (requests @ [NodeTreeRequest r])))
      else
        (case action_to_request C action id_mapping of
           Inl e \<Rightarrow> Inl e
         | Inr r \<Rightarrow>
             node_action_loop C dur id_mapping rest starting node_settings
               (requests @ [NodeTreeRequest r])))"

definition collect_node_action_requests ::
  "'r collaborators \<Rightarrow> offset \<Rightarrow> id_mapping \<Rightarrow> (node \<times> node_transition) list \<Rightarrow> node_settings
     \<Rightarrow> node list \<Rightarrow> error + ('r request list \<times> node_settings)" where
  "collect_node_action_requests C dur id_mapping node_actions node_settings starting =
     node_action_loop C dur id_mapping node_actions starting node_settings []"

text \<open>\<^verbatim>\<open>_collect_node_set_requests\<close>.\<close>

fun split_settings ::
  "id_mapping \<Rightarrow> (string \<times> parameter_rate) list \<Rightarrow> (string \<times> val) list
     \<Rightarrow> (string \<times> int) list \<Rightarrow> (string \<times> int) list \<Rightarrow> (string \<times> val) list
     \<Rightarrow> error + ((string \<times> int) list \<times> (string \<times> int) list \<times> (string \<times> val) list)" where
  "split_settings id_mapping params [] a_settings c_settings n_settings =
     Inr (a_settings, c_settings, n_settings)"
| "split_settings id_mapping params ((key, v) # rest) a_settings c_settings n_settings =
     (if map_of params key = Some PR_SCALAR
      then split_settings id_mapping params rest a_settings c_settings n_settings
      else
        (case v of
           NoneVal \<Rightarrow>
             split_settings id_mapping params rest a_settings (dict_set c_settings key (- 1))
               n_settings
         | BusVal b \<Rightarrow>
             (case id_mapping (BusObj (bus_ref b)) of
                None \<Rightarrow> Inl KeyError
              | Some i \<Rightarrow>
                  if calculation_rate b = CONTROL
                  then split_settings id_mapping params rest a_settings
                         (dict_set c_settings key i) n_settings
                  else split_settings id_mapping params rest (dict_set a_settings key i)
                         c_settings n_settings)
         | BusGroupVal g \<Rightarrow>
             (case id_mapping (BusGroupObj (bus_group_ref g)) of
                None \<Rightarrow> Inl KeyError
              | Some i \<Rightarrow>
                  if bus_group_calculation_rate g = CONTROL
                  then split_settings id_mapping params rest a_settings
                         (dict_set c_settings key i) n_settings
                  else split_settings id_mapping params rest (dict_set a_settings key i)
                         c_settings n_settings)
         | BufferVal r \<Rightarrow>
             (case id_mapping (BufferObj r) of
                None \<Rightarrow> Inl KeyError
              | Some i \<Rightarrow>
                  split_settings id_mapping params rest a_settings c_settings
                    (dict_set n_settings key (Num (of_int i))))
         | BufferGroupVal r \<Rightarrow>
             (case id_mapping (BufferGroupObj r) of
                None \<Rightarrow> Inl KeyError
              | Some i \<Rightarrow>
                  split_settings id_mapping params rest a_settings c_settings
                    (dict_set n_settings key (Num (of_int i))))
         | _ \<Rightarrow>
             split_settings id_mapping params rest a_settings c_settings
               (dict_set n_settings key v)))"

fun node_set_loop ::
  "id_mapping \<Rightarrow> node_settings \<Rightarrow> 'r request list \<Rightarrow> error + 'r request list" where
  "node_set_loop id_mapping [] requests = Inr requests"
| "node_set_loop id_mapping ((n, settings) # rest) requests =
     (case id_mapping (NodeObj (node_ref n)) of
        None \<Rightarrow> Inl KeyError
      | Some node_id \<Rightarrow>
          (case split_settings id_mapping
                  (case node_synthdef n of None \<Rightarrow> [] | Some sd \<Rightarrow> parameters sd)
                  settings [] [] [] of
             Inl e \<Rightarrow> Inl e
           | Inr (a_settings, c_settings, n_settings) \<Rightarrow>
               node_set_loop id_mapping rest
                 (requests
                  @ (if n_settings \<noteq> [] then [NodeSetRequest node_id n_settings] else [])
                  @ (if a_settings \<noteq> [] then [NodeMapToAudioBusRequest node_id a_settings]
                     else [])
                  @ (if c_settings \<noteq> [] then [NodeMapToControlBusRequest node_id c_settings]
                     else []))))"

definition collect_node_set_requests ::
  "id_mapping \<Rightarrow> node_settings \<Rightarrow> error + 'r request list" where
  "collect_node_set_requests id_mapping node_settings = node_set_loop id_mapping node_settings []"

section \<open>The request compiler and the bundle linearizer\<close>

text \<open>
  \<^verbatim>\<open>_collect_requests_at_offset\<close>. The two lookups of the state may change the session; the
  open states of the buffers and the visited definitions are handed on to the next offset.
\<close>

definition collect_requests_at_offset ::
  "'r collaborators \<Rightarrow> clone_fn \<Rightarrow> session \<Rightarrow> buffer_open_states \<Rightarrow> 'r buffer_settings
     \<Rightarrow> bus_settings \<Rightarrow> offset \<Rightarrow> id_mapping \<Rightarrow> bool \<Rightarrow> offset \<Rightarrow> synthdef list
     \<Rightarrow> (error + ('r request list \<times> buffer_open_states \<times> synthdef list)) \<times> session" where
  "collect_requests_at_offset C clone s open_states buffer_settings bus_settings dur id_mapping
       is_last_offset x visited_synthdefs =
     (case collect_durated_objects C clone s x is_last_offset of
        (Inl e, s1) \<Rightarrow> (Inl e, s1)
      | (Inr (starting_buffers, starting_nodes, stopping_buffers, stopping_nodes), s1) \<Rightarrow>
          (case find_state_at clone s1 x True of
             (Inl e, s2) \<Rightarrow> (Inl e, s2)
           | (Inr None, s2) \<Rightarrow> (Inl AttributeError, s2)
           | (Inr (Some st), s2) \<Rightarrow>
               (err_bind (collect_node_settings C s2 x st id_mapping) (\<lambda>node_settings.
                case collect_synthdef_requests starting_nodes visited_synthdefs of
                  (r1, visited) \<Rightarrow>
                err_bind (collect_buffer_allocate_requests open_states id_mapping
                            starting_buffers) (\<lambda>(r2, open2).
                err_bind (collect_buffer_nonlifecycle_requests open2 buffer_settings x
                            ordered_buffer_post_alloc_request_types) (\<lambda>(r3, open3).
                err_bind (collect_node_action_requests C dur id_mapping (st_transitions st)
                            node_settings starting_nodes) (\<lambda>(r4, node_settings').
                err_bind (collect_node_set_requests id_mapping node_settings') (\<lambda>r6.
                err_bind (collect_node_free_requests id_mapping stopping_nodes) (\<lambda>r7.
                err_bind (collect_buffer_nonlifecycle_requests open3 buffer_settings x
                            ordered_buffer_pre_free_request_types) (\<lambda>(r8, open8).
                err_bind (collect_buffer_free_requests open8 id_mapping stopping_buffers)
                  (\<lambda>(r9, open9).
                Inr (r1 @ r2 @ r3 @ r4 @ collect_bus_set_requests bus_settings x @ r6 @ r7
                     @ r8 @ r9, open9, visited))))))))), s2)))"

text \<open>The property \<^verbatim>\<open>Session.duration\<close>.\<close>

definition session_duration :: "session \<Rightarrow> offset" where
  "session_duration s =
     (let d0 = (case dropWhile (\<lambda>x. \<not> x < PosInf) (rev (offsets s)) of
                  x # _ \<Rightarrow> x
                | [] \<Rightarrow> (case offsets s of [] \<Rightarrow> Fin 0 | first # _ \<Rightarrow> first));
          d1 = (if d0 < Fin 0 then Fin 0 else d0)
      in case padding s of
           None \<Rightarrow> d1
         | Some p \<Rightarrow>
             (case d1 of
                Fin r \<Rightarrow> if 0 < r \<and> p \<noteq> 0 then Fin (r + p) else d1
              | _ \<Rightarrow> d1))"

text \<open>
  \<^verbatim>\<open>_to_non_xrefd_request_bundles\<close>. The loop over the offsets stops after the offset that
  equals the duration. The result is the list of bundles, or the exception, and the
  session as the lookups of the states leave it.
\<close>

fun bundles_loop ::
  "'r collaborators \<Rightarrow> clone_fn \<Rightarrow> 'r buffer_settings \<Rightarrow> bus_settings \<Rightarrow> offset \<Rightarrow> id_mapping
     \<Rightarrow> offset list \<Rightarrow> session \<Rightarrow> buffer_open_states \<Rightarrow> synthdef list
     \<Rightarrow> 'r request_bundle list \<Rightarrow> (error + 'r request_bundle list) \<times> session" where
  "bundles_loop C clone buffer_settings bus_settings dur id_mapping [] s open_states
       visited_synthdefs request_bundles = (Inr request_bundles, s)"
| "bundles_loop C clone buffer_settings bus_settings dur id_mapping (x # rest) s open_states
       visited_synthdefs request_bundles =
     (case collect_requests_at_offset C clone s open_states buffer_settings bus_settings dur
             id_mapping (x = dur) x visited_synthdefs of
        (Inl e, s') \<Rightarrow> (Inl e, s')
      | (Inr (requests0, open_states', visited'), s') \<Rightarrow>
          (let requests = (if x = dur then requests0 @ [NothingRequest] else requests0);
               request_bundles' =
                 (if requests \<noteq> [] then request_bundles @ [RequestBundle requests x]
                  else request_bundles)
           in if x = dur then (Inr request_bundles', s')
              else bundles_loop C clone buffer_settings bus_settings dur id_mapping rest s'
                     open_states' visited' request_bundles'))"

definition to_non_xrefd_request_bundles ::
  "'r collaborators \<Rightarrow> clone_fn \<Rightarrow> session \<Rightarrow> offset option
     \<Rightarrow> (error + 'r request_bundle list) \<times> session" where
  "to_non_xrefd_request_bundles C clone s dur_arg =
     (case build_id_mapping s of
        Inl e \<Rightarrow> (Inl e, s)
      | Inr id_mapping \<Rightarrow>
          if session_duration s = PosInf
             \<and> \<not> (case dur_arg of None \<Rightarrow> False | Some d \<Rightarrow> Fin 0 < d \<and> d < PosInf)
          then (Inl AssertionError, s)
          else
            (let dur = (case dur_arg of
                          None \<Rightarrow> session_duration s
                        | Some d \<Rightarrow> if d \<noteq> Fin 0 then d else session_duration s);
                 offs = (if dur \<in> set (tl (offsets s)) then tl (offsets s)
                         else sort (tl (offsets s) @ [dur]))
             in case collect_buffer_settings s id_mapping of
                  Inl e \<Rightarrow> (Inl e, s)
                | Inr buffer_settings \<Rightarrow>
                    (case collect_bus_settings s id_mapping of
                       Inl e \<Rightarrow> (Inl e, s)
                     | Inr bus_settings \<Rightarrow>
                         bundles_loop C clone buffer_settings bus_settings dur id_mapping offs s
                           Map.empty [] [])))"

section \<open>Binary search on a sorted list\<close>

lemma bisect_left_loop_sorted:
  assumes "sorted a" "lo \<le> hi" "hi \<le> length a"
    and "\<forall>i<lo. a ! i < x" and "\<forall>i. hi \<le> i \<and> i < length a \<longrightarrow> \<not> a ! i < x"
  shows "bisect_left_loop a x lo hi = length (takeWhile (\<lambda>y. y < x) a)"
  using assms
proof (induction a x lo hi rule: bisect_left_loop.induct)
  case (1 a x lo hi)
  show ?case
  proof (cases "lo < hi")
    case False
    with "1.prems" have eq: "lo = hi" by simp
    have "takeWhile (\<lambda>y. y < x) a = take lo a"
      by (rule takeWhile_eq_take_P_nth) (use "1.prems" eq in auto)
    with "1.prems" eq show ?thesis
      by (simp add: bisect_left_loop.simps [of a x hi hi])
  next
    case True
    define mid where "mid = (lo + hi) div 2"
    have mid: "lo \<le> mid" "mid < hi" using True by (auto simp: mid_def)
    show ?thesis
    proof (cases "a ! mid < x")
      case lt: True
      have "\<forall>i<mid + 1. a ! i < x"
      proof (intro allI impI)
        fix i assume "i < mid + 1"
        then have "a ! i \<le> a ! mid"
          using "1.prems"(1,3) mid by (auto intro!: sorted_nth_mono)
        with lt show "a ! i < x" by simp
      qed
      with "1.IH"(1) [OF True mid_def lt] "1.prems" mid
      have "bisect_left_loop a x (mid + 1) hi = length (takeWhile (\<lambda>y. y < x) a)"
        by simp
      with True lt show ?thesis
        by (simp add: bisect_left_loop.simps [of a x lo hi] mid_def Let_def)
    next
      case ge: False
      have "\<forall>i. mid \<le> i \<and> i < length a \<longrightarrow> \<not> a ! i < x"
      proof (intro allI impI)
        fix i assume "mid \<le> i \<and> i < length a"
        then have "a ! mid \<le> a ! i"
          using "1.prems"(1) by (auto intro!: sorted_nth_mono)
        with ge show "\<not> a ! i < x" by auto
      qed
      with "1.IH"(2) [OF True mid_def ge] "1.prems" mid
      have "bisect_left_loop a x lo mid = length (takeWhile (\<lambda>y. y < x) a)"
        by simp
      with True ge show ?thesis
        by (simp add: bisect_left_loop.simps [of a x lo hi] mid_def Let_def)
    qed
  qed
qed

lemma bisect_left_sorted:
  "sorted a \<Longrightarrow> bisect_left a x = length (takeWhile (\<lambda>y. y < x) a)"
  unfolding bisect_left_def by (rule bisect_left_loop_sorted) auto

section \<open>The offset index\<close>

lemma list_index_nth:
  "distinct xs \<Longrightarrow> i < length xs \<Longrightarrow> list_index xs (xs ! i) = Some i"
proof (induction xs arbitrary: i)
  case Nil
  then show ?case by simp
next
  case (Cons y ys)
  show ?case
  proof (cases i)
    case 0
    then show ?thesis by simp
  next
    case (Suc j)
    with Cons.prems have "ys ! j \<in> set ys" "y \<notin> set ys" by auto
    then have "y \<noteq> ys ! j" by auto
    with Suc Cons show ?thesis by simp
  qed
qed

lemma NegInf_less: "Fin 0 \<le> x \<Longrightarrow> NegInf < x"
  by (cases x) (simp_all add: less_offset_def)

text \<open>The offsets strictly below x form a non-empty prefix "pre"; the predecessor is "last pre".\<close>

lemma predecessor_split:
  assumes inv: "session_invariant s" and x: "Fin 0 \<le> x"
  defines "pre \<equiv> takeWhile (\<lambda>y. y < x) (offsets s)"
    and "post \<equiv> dropWhile (\<lambda>y. y < x) (offsets s)"
  shows "offsets s = pre @ post" "pre \<noteq> []" "\<forall>y\<in>set pre. y < x" "\<forall>y\<in>set post. x \<le> y"
    "bisect_left (offsets s) x = length pre"
proof -
  from inv have ne: "offsets s \<noteq> []" and hd: "hd (offsets s) = NegInf" and srt: "sorted (offsets s)"
    by (simp_all add: session_invariant_def)
  show "offsets s = pre @ post" by (simp add: pre_def post_def)
  from ne hd NegInf_less [OF x] show "pre \<noteq> []"
    by (cases "offsets s") (simp_all add: pre_def)
  show "\<forall>y\<in>set pre. y < x" by (auto simp: pre_def dest: set_takeWhileD)
  show "\<forall>y\<in>set post. x \<le> y"
  proof
    fix y assume y: "y \<in> set post"
    then have "post \<noteq> []" by auto
    then have h: "\<not> hd post < x" unfolding post_def by (rule hd_dropWhile)
    from srt have "sorted post" unfolding post_def by (simp add: sorted_dropWhile)
    with y \<open>post \<noteq> []\<close> have "hd post \<le> y" by (cases post) auto
    with h show "x \<le> y" by auto
  qed
  from srt show "bisect_left (offsets s) x = length pre"
    by (simp add: bisect_left_sorted pre_def)
qed

lemma find_state_before_predecessor:
  assumes inv: "session_invariant s" and x: "Fin 0 \<le> x"
  defines "pre \<equiv> takeWhile (\<lambda>y. y < x) (offsets s)"
  shows "\<exists>st. find_state_before s x False = Inr (Some st) \<and> states s (last pre) = Some st
             \<and> st_offset st = last pre"
proof -
  define post where "post = dropWhile (\<lambda>y. y < x) (offsets s)"
  note sp = predecessor_split [OF inv x, folded pre_def post_def]
  let ?offs = "offsets s"
  have len: "length pre \<le> length ?offs" "0 < length pre" using sp(1,2) by auto
  have nth_last: "?offs ! (length pre - 1) = last pre"
    using sp(1,2) by (simp add: nth_append last_conv_nth)
  have "last pre \<in> set pre" using sp(2) by simp
  then have "last pre \<in> set ?offs" using sp(1) by simp
  with inv obtain st where st: "states s (last pre) = Some st" "st_offset st = last pre"
    unfolding session_invariant_def by blast
  have lt: "last pre < x" using sp(2,3) by auto
  then have nle: "\<not> x \<le> last pre" by simp
  have "find_state_before s x False = Inr (Some st)"
  proof (cases "length pre = length ?offs")
    case True
    with len nth_last nle st show ?thesis
      by (simp add: find_state_before_def sp(5) Let_def nat_diff_distrib')
  next
    case False
    with len have "length pre < length ?offs" by simp
    then have "post \<noteq> []" using sp(1) by auto
    then have "?offs ! length pre = hd post" using sp(1)
      by (simp add: nth_append hd_conv_nth)
    moreover have "x \<le> hd post" using sp(4) \<open>post \<noteq> []\<close> by auto
    ultimately show ?thesis using False len nth_last st
      by (simp add: find_state_before_def sp(5) Let_def nat_diff_distrib')
  qed
  with st show ?thesis by blast
qed

lemma session_at_existing:
  assumes inv: "session_invariant s" and x: "Fin 0 \<le> x" and mem: "x \<in> set (offsets s)"
  shows "\<exists>st. states s x = Some st \<and> session_at clone s x propagate = (Inr (Moment x st propagate), s)"
proof -
  from inv mem obtain st where st: "states s x = Some st" "st_offset st = x"
    unfolding session_invariant_def by blast
  with x show ?thesis
    by (simp add: session_at_def find_state_at_def)
qed

lemma session_at_fresh:
  assumes inv: "session_invariant s" and x: "Fin 0 \<le> x" and fresh: "x \<notin> set (offsets s)"
  defines "pre \<equiv> takeWhile (\<lambda>y. y < x) (offsets s)"
    and "post \<equiv> dropWhile (\<lambda>y. y < x) (offsets s)"
  shows "\<exists>old. states s (last pre) = Some old \<and>
           session_at clone s x propagate =
             (Inr (Moment x (clone old x) propagate),
              s\<lparr>states := (states s)(x \<mapsto> clone old x), offsets := pre @ x # post\<rparr>)"
proof -
  note sp = predecessor_split [OF inv x, folded pre_def post_def]
  from find_state_before_predecessor [OF inv x, folded pre_def]
  obtain old where old: "find_state_before s x False = Inr (Some old)"
    "states s (last pre) = Some old" "st_offset old = last pre" by blast
  from inv fresh have none: "states s x = None"
    unfolding session_invariant_def by blast
  from inv have dist: "distinct (offsets s)" by (simp add: session_invariant_def)
  have "offsets s ! (length pre - 1) = last pre"
    using sp(1,2) by (simp add: nth_append last_conv_nth)
  moreover have "length pre - 1 < length (offsets s)" using sp(1,2) by (cases pre) auto
  ultimately have idx: "list_index (offsets s) (last pre) = Some (length pre - 1)"
    using list_index_nth [OF dist, of "length pre - 1"] by simp
  have ins: "list_insert (offsets s) (length pre) x = pre @ x # post"
    by (simp add: list_insert_def sp(1))
  have suc: "Suc (length pre - 1) = length pre" using sp(2) by (cases pre) auto
  from x none old idx ins suc show ?thesis
    by (simp add: session_at_def find_state_at_def add_state_at_def splice_state_def)
qed

lemma empty_session_invariant: "session_invariant empty_session"
  by (auto simp: session_invariant_def empty_session_def empty_state_def less_offset_def
      split: if_splits)

lemma session_at_fresh_shape:
  assumes inv: "session_invariant s" and x: "Fin 0 \<le> x" and fresh: "x \<notin> set (offsets s)"
  shows "\<exists>pre post st s'.
       session_at clone s x propagate = (Inr (Moment x st propagate), s')
     \<and> offsets s = pre @ post \<and> offsets s' = pre @ x # post
     \<and> pre \<noteq> [] \<and> last pre < x \<and> (\<forall>y\<in>set pre. y \<le> last pre)
     \<and> (\<forall>y\<in>set post. x < y)
     \<and> states s' = (states s)(x \<mapsto> st)
     \<and> (\<exists>old. st = clone old x)
     \<and> sorted (offsets s') \<and> distinct (offsets s')"
proof -
  define pre where "pre = takeWhile (\<lambda>y. y < x) (offsets s)"
  define post where "post = dropWhile (\<lambda>y. y < x) (offsets s)"
  note sp = predecessor_split [OF inv x, folded pre_def post_def]
  from inv have srt: "sorted (offsets s)" and dist: "distinct (offsets s)"
    by (simp_all add: session_invariant_def)
  from session_at_fresh [OF inv x fresh, of clone propagate, folded pre_def post_def]
  obtain old where at: "session_at clone s x propagate =
      (Inr (Moment x (clone old x) propagate),
       s\<lparr>states := (states s)(x \<mapsto> clone old x), offsets := pre @ x # post\<rparr>)"
    by blast
  have lt: "last pre < x" using sp(2,3) by simp
  have srt_pre: "sorted pre" and srt_post: "sorted post"
    using srt sp(1) by (simp_all add: sorted_append)
  have le_last: "\<forall>y\<in>set pre. y \<le> last pre"
  proof
    fix y assume "y \<in> set pre"
    then obtain i where i: "i < length pre" "pre ! i = y" by (auto simp: in_set_conv_nth)
    then have "pre ! i \<le> pre ! (length pre - 1)"
      using srt_pre by (intro sorted_nth_mono) auto
    with i sp(2) show "y \<le> last pre" by (simp add: last_conv_nth)
  qed
  have gt: "\<forall>y\<in>set post. x < y"
  proof
    fix y assume y: "y \<in> set post"
    with sp(4) have "x \<le> y" by simp
    moreover from y sp(1) fresh have "y \<noteq> x" by auto
    ultimately show "x < y" by simp
  qed
  have srt': "sorted (pre @ x # post)"
    using srt sp(1,3) gt by (auto simp: sorted_append less_imp_le)
  have dist': "distinct (pre @ x # post)"
    using dist sp(1) fresh by auto
  show ?thesis
    apply (rule exI [of _ pre], rule exI [of _ post], rule exI [of _ "clone old x"])
    apply (rule exI [of _ "s\<lparr>states := (states s)(x \<mapsto> clone old x), offsets := pre @ x # post\<rparr>"])
    using at sp(1,2) lt le_last gt srt' dist' by auto
qed

lemma session_at_keeps_invariant:
  assumes inv: "session_invariant s" and x: "Fin 0 \<le> x"
    and cl: "\<And>st y. st_offset (clone st y) = y"
  shows "session_invariant (snd (session_at clone s x propagate))"
proof (cases "x \<in> set (offsets s)")
  case True
  with session_at_existing [OF inv x, of clone propagate] inv show ?thesis by auto
next
  case False
  from session_at_fresh_shape [OF inv x False, of clone propagate]
  obtain pre post st s' old where r: "session_at clone s x propagate = (Inr (Moment x st propagate), s')"
    "offsets s = pre @ post" "offsets s' = pre @ x # post" "pre \<noteq> []"
    "states s' = (states s)(x \<mapsto> st)" "sorted (offsets s')" "distinct (offsets s')"
    "st = clone old x"
    by blast
  with cl have so: "st_offset st = x" by simp
  from inv r(2,4) have "hd (offsets s') = NegInf"
    by (simp add: session_invariant_def r(3) hd_append)
  moreover from inv have "dom (states s') = set (offsets s')"
    by (auto simp: session_invariant_def r(2,3,5))
  moreover from inv so have "\<forall>y st'. states s' y = Some st' \<longrightarrow> st_offset st' = y"
    by (auto simp: session_invariant_def r(5))
  ultimately show ?thesis using r(1,3,6,7) by (simp add: session_invariant_def)
qed

section \<open>Dictionaries filled in a loop\<close>

lemma fold_upd_step:
  "fold (\<lambda>x m. m(key x \<mapsto> valu x)) (x # xs) m
     = fold (\<lambda>x m. m(key x \<mapsto> valu x)) xs (m(key x \<mapsto> valu x))"
  by (simp only: fold_simps comp_def)

lemma fold_upd_keeps:
  "m k \<noteq> None \<Longrightarrow> fold (\<lambda>x m. m(key x \<mapsto> valu x)) xs m k \<noteq> None"
proof (induction xs arbitrary: m)
  case Nil
  then show ?case by simp
next
  case (Cons x xs)
  from Cons.prems have "(m(key x \<mapsto> valu x)) k \<noteq> None" by simp
  then have "fold (\<lambda>x m. m(key x \<mapsto> valu x)) xs (m(key x \<mapsto> valu x)) k \<noteq> None"
    by (rule Cons.IH)
  then show ?case unfolding fold_upd_step .
qed

lemma fold_upd_defined:
  "x \<in> set xs \<Longrightarrow> fold (\<lambda>x m. m(key x \<mapsto> valu x)) xs m (key x) \<noteq> None"
proof (induction xs arbitrary: m)
  case Nil
  then show ?case by simp
next
  case (Cons y xs)
  show ?case
  proof (cases "x = y")
    case True
    have "(m(key y \<mapsto> valu y)) (key x) \<noteq> None" unfolding True by simp
    then have "fold (\<lambda>x m. m(key x \<mapsto> valu x)) xs (m(key y \<mapsto> valu y)) (key x) \<noteq> None"
      by (rule fold_upd_keeps)
    then show ?thesis unfolding fold_upd_step .
  next
    case False
    with Cons.prems have "x \<in> set xs" by simp
    then have "fold (\<lambda>x m. m(key x \<mapsto> valu x)) xs (m(key y \<mapsto> valu y)) (key x) \<noteq> None"
      by (rule Cons.IH)
    then show ?thesis unfolding fold_upd_step .
  qed
qed

lemma fold_upd_other:
  "\<forall>x\<in>set xs. key x \<noteq> k \<Longrightarrow> fold (\<lambda>x m. m(key x \<mapsto> valu x)) xs m k = m k"
proof (induction xs arbitrary: m)
  case Nil
  then show ?case by simp
next
  case (Cons y xs)
  from Cons.prems have "\<forall>x\<in>set xs. key x \<noteq> k" and ne: "key y \<noteq> k" by simp_all
  then have "fold (\<lambda>x m. m(key x \<mapsto> valu x)) xs (m(key y \<mapsto> valu y)) k = (m(key y \<mapsto> valu y)) k"
    by (intro Cons.IH)
  with ne show ?case unfolding fold_upd_step by simp
qed

lemma fold_upd_source:
  "fold (\<lambda>x m. m(key x \<mapsto> valu x)) xs m k = Some v \<Longrightarrow>
   m k = Some v \<or> (\<exists>x\<in>set xs. key x = k \<and> valu x = v)"
proof (induction xs arbitrary: m)
  case Nil
  then show ?case by simp
next
  case (Cons y xs)
  from Cons.prems
  have "fold (\<lambda>x m. m(key x \<mapsto> valu x)) xs (m(key y \<mapsto> valu y)) k = Some v"
    unfolding fold_upd_step .
  from Cons.IH [OF this]
  have "(m(key y \<mapsto> valu y)) k = Some v \<or> (\<exists>x\<in>set xs. key x = k \<and> valu x = v)" .
  then show ?case by (auto split: if_splits)
qed

section \<open>Node ids\<close>

lemma build_nodes_loop_source:
  "build_nodes_loop sts offs m0 = Inr m \<Longrightarrow> m k = Some v \<Longrightarrow>
   m0 k = Some v \<or> (\<exists>x\<in>set offs. \<exists>st. sts x = Some st \<and>
        (\<exists>n\<in>set (st_start_nodes st). NodeObj (node_ref n) = k \<and> session_id n = v))"
proof (induction offs arbitrary: m0)
  case Nil
  then show ?case by simp
next
  case (Cons x offs)
  from Cons.prems(1) obtain st where st: "sts x = Some st"
    by (cases "sts x") simp_all
  let ?m1 = "fold (\<lambda>node m. m(NodeObj (node_ref node) \<mapsto> session_id node))
               (sort_key session_id (st_start_nodes st)) m0"
  from Cons.prems(1) st have run: "build_nodes_loop sts offs ?m1 = Inr m" by simp
  from Cons.IH [OF run Cons.prems(2)]
  consider "?m1 k = Some v"
    | "\<exists>x\<in>set offs. \<exists>st. sts x = Some st \<and>
        (\<exists>n\<in>set (st_start_nodes st). NodeObj (node_ref n) = k \<and> session_id n = v)"
    by blast
  then show ?case
  proof cases
    case 1
    from fold_upd_source [OF 1]
    have "m0 k = Some v \<or> (\<exists>n\<in>set (st_start_nodes st). NodeObj (node_ref n) = k \<and> session_id n = v)"
      by simp
    with st show ?thesis by auto
  next
    case 2
    then show ?thesis by auto
  qed
qed

lemma build_nodes_loop_keeps:
  "build_nodes_loop sts offs m0 = Inr m \<Longrightarrow> m0 k \<noteq> None \<Longrightarrow> m k \<noteq> None"
proof (induction offs arbitrary: m0)
  case Nil
  then show ?case by simp
next
  case (Cons x offs)
  from Cons.prems(1) obtain st where st: "sts x = Some st"
    by (cases "sts x") simp_all
  let ?m1 = "fold (\<lambda>node m. m(NodeObj (node_ref node) \<mapsto> session_id node))
               (sort_key session_id (st_start_nodes st)) m0"
  from Cons.prems(1) st have run: "build_nodes_loop sts offs ?m1 = Inr m" by simp
  from Cons.prems(2) have "?m1 k \<noteq> None" by (rule fold_upd_keeps)
  with Cons.IH [OF run] show ?case .
qed

lemma build_nodes_loop_defined:
  "build_nodes_loop sts offs m0 = Inr m \<Longrightarrow> x \<in> set offs \<Longrightarrow> sts x = Some st \<Longrightarrow>
   n \<in> set (st_start_nodes st) \<Longrightarrow> m (NodeObj (node_ref n)) \<noteq> None"
proof (induction offs arbitrary: m0)
  case Nil
  then show ?case by simp
next
  case (Cons y offs)
  from Cons.prems(1) obtain st' where st': "sts y = Some st'"
    by (cases "sts y") simp_all
  let ?m1 = "fold (\<lambda>node m. m(NodeObj (node_ref node) \<mapsto> session_id node))
               (sort_key session_id (st_start_nodes st')) m0"
  from Cons.prems(1) st' have run: "build_nodes_loop sts offs ?m1 = Inr m" by simp
  show ?case
  proof (cases "x = y")
    case True
    with st' Cons.prems(3,4) have "n \<in> set (sort_key session_id (st_start_nodes st'))" by simp
    then have "?m1 (NodeObj (node_ref n)) \<noteq> None"
      by (rule fold_upd_defined [where key = "\<lambda>n. NodeObj (node_ref n)"])
    with run show ?thesis by (rule build_nodes_loop_keeps)
  next
    case False
    with Cons.prems(2) have "x \<in> set offs" by simp
    from Cons.IH [OF run this Cons.prems(3,4)] show ?thesis .
  qed
qed

section \<open>Buffer ids\<close>

lemma build_buffers_loop_keeps:
  "build_buffers_loop bufs m0 = Inr m \<Longrightarrow> m0 k \<noteq> None \<Longrightarrow> m k \<noteq> None"
proof (induction bufs m0 rule: build_buffers_loop.induct)
  case (1 mapping)
  then show ?case by simp
next
  case (2 buf rest mapping)
  show ?case
  proof (cases "mapping (BufferObj (buffer_ref buf)) \<noteq> None")
    case True
    with "2.prems" "2.IH"(1) show ?thesis by simp
  next
    case unmapped: False
    show ?thesis
    proof (cases "buffer_group buf")
      case None
      let ?m1 = "mapping(BufferObj (buffer_ref buf) \<mapsto> buffer_session_id buf)"
      from "2.prems"(1) unmapped None have run: "build_buffers_loop rest ?m1 = Inr m" by simp
      from "2.prems"(2) have "?m1 k \<noteq> None" by simp
      from "2.IH"(2) [OF unmapped None run this] show ?thesis .
    next
      case (Some g)
      with "2.prems"(1) unmapped obtain first others where mem: "buffer_group_buffers g = first # others"
        by (cases "buffer_group_buffers g") simp_all
      let ?m1 = "fold (\<lambda>child m. m(BufferObj (fst child) \<mapsto> snd child)) (buffer_group_buffers g)
                   (mapping(BufferGroupObj (buffer_group_ref g) \<mapsto> snd first))"
      from "2.prems"(1) unmapped Some mem have run: "build_buffers_loop rest ?m1 = Inr m" by simp
      from "2.prems"(2) have "(mapping(BufferGroupObj (buffer_group_ref g) \<mapsto> snd first)) k \<noteq> None"
        by simp
      then have "?m1 k \<noteq> None" by (rule fold_upd_keeps)
      from "2.IH"(3) [OF unmapped Some mem run this] show ?thesis .
    qed
  qed
qed

lemma build_buffers_loop_defined:
  "build_buffers_loop bufs m0 = Inr m \<Longrightarrow> b \<in> set bufs \<Longrightarrow>
   (\<forall>g. buffer_group b = Some g \<longrightarrow> (buffer_ref b, buffer_session_id b) \<in> set (buffer_group_buffers g)) \<Longrightarrow>
   m (BufferObj (buffer_ref b)) \<noteq> None"
proof (induction bufs m0 rule: build_buffers_loop.induct)
  case (1 mapping)
  then show ?case by simp
next
  case (2 buf rest mapping)
  show ?case
  proof (cases "mapping (BufferObj (buffer_ref buf)) \<noteq> None")
    case True
    with "2.prems"(1) have run: "build_buffers_loop rest mapping = Inr m" by simp
    show ?thesis
    proof (cases "b = buf")
      case eq: True
      with True have "mapping (BufferObj (buffer_ref b)) \<noteq> None" by simp
      with run show ?thesis by (rule build_buffers_loop_keeps)
    next
      case False
      with "2.prems"(2) have "b \<in> set rest" by simp
      from "2.IH"(1) [OF True run this "2.prems"(3)] show ?thesis .
    qed
  next
    case unmapped: False
    show ?thesis
    proof (cases "buffer_group buf")
      case None
      let ?m1 = "mapping(BufferObj (buffer_ref buf) \<mapsto> buffer_session_id buf)"
      from "2.prems"(1) unmapped None have run: "build_buffers_loop rest ?m1 = Inr m" by simp
      show ?thesis
      proof (cases "b = buf")
        case True
        then have "?m1 (BufferObj (buffer_ref b)) \<noteq> None" by simp
        with run show ?thesis by (rule build_buffers_loop_keeps)
      next
        case False
        with "2.prems"(2) have "b \<in> set rest" by simp
        from "2.IH"(2) [OF unmapped None run this "2.prems"(3)] show ?thesis .
      qed
    next
      case (Some g)
      with "2.prems"(1) unmapped obtain first others where mem: "buffer_group_buffers g = first # others"
        by (cases "buffer_group_buffers g") simp_all
      let ?m0 = "mapping(BufferGroupObj (buffer_group_ref g) \<mapsto> snd first)"
      let ?m1 = "fold (\<lambda>child m. m(BufferObj (fst child) \<mapsto> snd child)) (buffer_group_buffers g) ?m0"
      from "2.prems"(1) unmapped Some mem have run: "build_buffers_loop rest ?m1 = Inr m" by simp
      show ?thesis
      proof (cases "b = buf")
        case True
        with "2.prems"(3) Some
        have "(buffer_ref b, buffer_session_id b) \<in> set (buffer_group_buffers g)" by simp
        from fold_upd_defined [OF this, where key = "\<lambda>c. BufferObj (fst c)" and valu = snd and m = ?m0]
        have "?m1 (BufferObj (buffer_ref b)) \<noteq> None" by simp
        with run show ?thesis by (rule build_buffers_loop_keeps)
      next
        case False
        with "2.prems"(2) have "b \<in> set rest" by simp
        from "2.IH"(3) [OF unmapped Some mem run this "2.prems"(3)] show ?thesis .
      qed
    qed
  qed
qed

lemma build_buffers_loop_source:
  "build_buffers_loop bufs m0 = Inr m \<Longrightarrow> m (BufferObj r) = Some v \<Longrightarrow>
   m0 (BufferObj r) = Some v
   \<or> (\<exists>b\<in>set bufs. buffer_ref b = r \<and> buffer_session_id b = v)
   \<or> (\<exists>b\<in>set bufs. \<exists>g. buffer_group b = Some g \<and> (r, v) \<in> set (buffer_group_buffers g))"
proof (induction bufs m0 rule: build_buffers_loop.induct)
  case (1 mapping)
  then show ?case by simp
next
  case (2 buf rest mapping)
  show ?case
  proof (cases "mapping (BufferObj (buffer_ref buf)) \<noteq> None")
    case True
    with "2.prems"(1) have run: "build_buffers_loop rest mapping = Inr m" by simp
    from "2.IH"(1) [OF True run "2.prems"(2)] show ?thesis by auto
  next
    case unmapped: False
    show ?thesis
    proof (cases "buffer_group buf")
      case None
      let ?m1 = "mapping(BufferObj (buffer_ref buf) \<mapsto> buffer_session_id buf)"
      from "2.prems"(1) unmapped None have run: "build_buffers_loop rest ?m1 = Inr m" by simp
      from "2.IH"(2) [OF unmapped None run "2.prems"(2)] show ?thesis
        by (auto split: if_splits)
    next
      case (Some g)
      with "2.prems"(1) unmapped obtain first others where mem: "buffer_group_buffers g = first # others"
        by (cases "buffer_group_buffers g") simp_all
      let ?m0 = "mapping(BufferGroupObj (buffer_group_ref g) \<mapsto> snd first)"
      let ?m1 = "fold (\<lambda>child m. m(BufferObj (fst child) \<mapsto> snd child)) (buffer_group_buffers g) ?m0"
      from "2.prems"(1) unmapped Some mem have run: "build_buffers_loop rest ?m1 = Inr m" by simp
      from "2.IH"(3) [OF unmapped Some mem run "2.prems"(2)]
      consider "?m1 (BufferObj r) = Some v"
        | "\<exists>b\<in>set rest. buffer_ref b = r \<and> buffer_session_id b = v"
        | "\<exists>b\<in>set rest. \<exists>g. buffer_group b = Some g \<and> (r, v) \<in> set (buffer_group_buffers g)"
        by blast
      then show ?thesis
      proof cases
        case 1
        from fold_upd_source [OF 1]
        have "mapping (BufferObj r) = Some v \<or> (r, v) \<in> set (buffer_group_buffers g)"
          by (auto split: if_splits)
        with Some show ?thesis by auto
      next
        case 2
        then show ?thesis by auto
      next
        case 3
        then show ?thesis by auto
      qed
    qed
  qed
qed

lemma build_buffers_loop_other:
  "build_buffers_loop bufs m0 = Inr m \<Longrightarrow> m (NodeObj r) = m0 (NodeObj r)"
proof (induction bufs m0 rule: build_buffers_loop.induct)
  case (1 mapping)
  then show ?case by simp
next
  case (2 buf rest mapping)
  show ?case
  proof (cases "mapping (BufferObj (buffer_ref buf)) \<noteq> None")
    case True
    with "2.prems" "2.IH"(1) show ?thesis by simp
  next
    case unmapped: False
    show ?thesis
    proof (cases "buffer_group buf")
      case None
      let ?m1 = "mapping(BufferObj (buffer_ref buf) \<mapsto> buffer_session_id buf)"
      from "2.prems"(1) unmapped None have run: "build_buffers_loop rest ?m1 = Inr m" by simp
      from "2.IH"(2) [OF unmapped None run] show ?thesis by simp
    next
      case (Some g)
      with "2.prems"(1) unmapped obtain first others where mem: "buffer_group_buffers g = first # others"
        by (cases "buffer_group_buffers g") simp_all
      let ?m0 = "mapping(BufferGroupObj (buffer_group_ref g) \<mapsto> snd first)"
      let ?m1 = "fold (\<lambda>child m. m(BufferObj (fst child) \<mapsto> snd child)) (buffer_group_buffers g) ?m0"
      from "2.prems"(1) unmapped Some mem have run: "build_buffers_loop rest ?m1 = Inr m" by simp
      have "?m1 (NodeObj r) = ?m0 (NodeObj r)" by (rule fold_upd_other) simp
      with "2.IH"(3) [OF unmapped Some mem run] show ?thesis by simp
    qed
  qed
qed

section \<open>Bus ids leave the other keys alone\<close>

lemma enumerate_buses_other:
  "(\<And>r. k \<noteq> BusObj r) \<Longrightarrow> enumerate_buses bs i m k = m k"
  by (induction bs i m rule: enumerate_buses.induct) simp_all

lemma hardware_buses_other:
  "hardware_buses n g i m0 = Inr m \<Longrightarrow> (\<And>r. k \<noteq> BusObj r) \<Longrightarrow> (\<And>r. k \<noteq> BusGroupObj r) \<Longrightarrow>
   m k = m0 k"
  by (auto simp: hardware_buses_def enumerate_buses_other split: if_splits option.splits)

lemma build_buses_loop_other:
  "build_buses_loop bs m0 a c = Inr m \<Longrightarrow> (\<And>r. k \<noteq> BusObj r) \<Longrightarrow> (\<And>r. k \<noteq> BusGroupObj r) \<Longrightarrow>
   m k = m0 k"
proof (induction bs arbitrary: m0 a c)
  case Nil
  then show ?case by simp
next
  case (Cons bus rest)
  have key: "\<forall>x\<in>set xs. BusObj (bus_ref bus) \<noteq> k" for xs :: "int list"
    using Cons.prems(2) by auto
  have inner: "fold (\<lambda>bus_id m. m(BusObj (bus_ref bus) \<mapsto> bus_id)) xs m' k = m' k"
    for xs :: "int list" and m'
    using fold_upd_other [where key = "\<lambda>_. BusObj (bus_ref bus)" and valu = "\<lambda>x. x", OF key] .
  from Cons.prems(1) obtain m1 a1 c1 where
    run: "build_buses_loop rest m1 a1 c1 = Inr m" and same: "m1 k = m0 k"
    using Cons.prems(2,3)
    by (auto simp: Let_def allocate_def inner split: if_splits option.splits)
  from Cons.IH [OF run Cons.prems(2,3)] same show ?case by simp
qed

lemma build_id_mapping_for_buses_other:
  "build_id_mapping_for_buses s = Inr m \<Longrightarrow> (\<And>r. k \<noteq> BusObj r) \<Longrightarrow> (\<And>r. k \<noteq> BusGroupObj r) \<Longrightarrow>
   m k = None"
  unfolding build_id_mapping_for_buses_def Let_def
  by (auto split: sum.splits dest!: hardware_buses_other [where k = k] build_buses_loop_other [where k = k])

lemma build_id_mapping_parts:
  assumes "build_id_mapping s = Inr m"
  obtains mb mbus mn where "build_id_mapping_for_buffers s = Inr mb"
    "build_id_mapping_for_buses s = Inr mbus" "build_id_mapping_for_nodes s = Inr mn"
    "m = mb ++ mbus ++ mn"
  using assms by (auto simp: build_id_mapping_def split: sum.splits)

lemma timeline_id_mapping_runs: "\<exists>m. build_id_mapping timeline_session = Inr m"
  by (simp add: build_id_mapping_def build_id_mapping_for_buffers_def
      build_id_mapping_for_buses_def build_id_mapping_for_nodes_def hardware_buses_def
      timeline_session_def empty_session_def empty_state_def example_buffer_def
      example_group_node_def example_synth_node_def)

section \<open>Stopping nodes\<close>

lemma split_stop_nodes_mapped:
  assumes "\<forall>n\<in>set ns. id_mapping (NodeObj (node_ref n)) = Some (ids n)"
  shows "split_stop_nodes id_mapping ns free_ids gate_ids =
           Inr (free_ids @ map ids (filter (\<lambda>n. \<not> has_gate n \<and> node_duration n \<noteq> Fin 0) ns),
                gate_ids @ map ids (filter has_gate ns))"
  using assms
proof (induction ns arbitrary: free_ids gate_ids)
  case Nil
  show ?case by simp
next
  case (Cons n ns)
  have m: "id_mapping (NodeObj (node_ref n)) = Some (ids n)" using Cons.prems by simp
  have rest: "\<forall>n\<in>set ns. id_mapping (NodeObj (node_ref n)) = Some (ids n)"
    using Cons.prems by simp
  show ?case using Cons.IH [OF rest] by (simp add: m)
qed

section \<open>Theorems\<close>

text \<open>
  C9. A write at a time outside the synth's interval (relative time below 0 or above the
  duration) returns normally and leaves the synth, hence every breakpoint list, as it was.
\<close>

theorem set_at_timestep_outside:
  assumes "t - start_offset s < 0 \<or> duration s < t - start_offset s"
  shows "set_at_timestep s t item v = s"
  using assms by (simp add: set_at_timestep_def)

theorem set_at_timestep_outside_witness:
  "(6 - start_offset example_synth < 0
      \<or> duration example_synth < 6 - start_offset example_synth)
   \<and> set_at_timestep example_synth 6 ''freq'' 220 = example_synth"
proof -
  have h: "6 - start_offset example_synth < 0
      \<or> duration example_synth < 6 - start_offset example_synth"
    by (simp add: example_synth_def duration_def)
  from h set_at_timestep_outside [OF h] show ?thesis by simp
qed

text \<open>
  C4. The round trip fails in the code: a second write at a time that already has a
  breakpoint with a smaller value is filed behind it instead of replacing it
  (\<^verbatim>\<open>bisect_left\<close> searches for the pair (time, value), not for the time), and the read at
  that time finds the older pair first. Here 5 and then 7 are written at time 3 of a synth
  that spans 2 to 5; the read at 3 gives 5, and both breakpoints are kept.
\<close>

theorem set_at_timestep_overwrite_lost:
  "get_at_timestep
     (set_at_timestep (set_at_timestep example_synth 3 ''amp'' 5) 3 ''amp'' 7) 3 ''amp'' = Inr 5
   \<and> events (set_at_timestep (set_at_timestep example_synth 3 ''amp'' 5) 3 ''amp'' 7) ''amp''
       = Some [(1, 5), (1, 7)]"
  by (simp add: example_synth_def set_at_timestep_def get_at_timestep_def duration_def
      bisect_left_def bisect_left_loop.simps list_insert_def)

text \<open>
  C8. \<^verbatim>\<open>Session.at\<close> at a negative offset fails on its assertion (the spec's InvalidOffset)
  before anything is written: the session after the failed call is the session before it,
  offset list and state mapping included.
\<close>

theorem session_at_negative:
  assumes "x < Fin 0"
  shows "session_at clone s x propagate = (Inl AssertionError, s)"
  using assms by (simp add: session_at_def not_le)

theorem session_at_negative_witness:
  "Fin (- 1) < Fin 0 \<and>
   session_at example_clone empty_session (Fin (- 1)) True = (Inl AssertionError, empty_session)"
  using session_at_negative [of "Fin (- 1)" example_clone empty_session True]
  by (simp add: less_offset_def)

text \<open>
  C10. On a session that satisfies its invariant, \<^verbatim>\<open>Session.at\<close> at a non-negative offset
  already in the offset list returns the state stored there and changes nothing. At a
  fresh offset it stores exactly one new state and splices the offset right after the
  greatest strictly smaller one: the offset list stays sorted and duplicate-free.
\<close>

theorem session_at_idempotent_or_splices:
  assumes inv: "session_invariant s" and x: "Fin 0 \<le> x"
  shows "(x \<in> set (offsets s) \<longrightarrow>
            (\<exists>st. states s x = Some st \<and>
                  session_at clone s x propagate = (Inr (Moment x st propagate), s)))
       \<and> (x \<notin> set (offsets s) \<longrightarrow>
            (\<exists>pre post st s'.
               session_at clone s x propagate = (Inr (Moment x st propagate), s')
             \<and> offsets s = pre @ post \<and> offsets s' = pre @ x # post
             \<and> pre \<noteq> [] \<and> last pre < x \<and> (\<forall>y\<in>set pre. y \<le> last pre)
             \<and> (\<forall>y\<in>set post. x < y)
             \<and> states s' = (states s)(x \<mapsto> st)
             \<and> sorted (offsets s') \<and> distinct (offsets s')))"
proof (intro conjI impI)
  assume "x \<in> set (offsets s)"
  then show "\<exists>st. states s x = Some st \<and>
      session_at clone s x propagate = (Inr (Moment x st propagate), s)"
    by (rule session_at_existing [OF inv x])
next
  assume fresh: "x \<notin> set (offsets s)"
  from session_at_fresh_shape [OF inv x fresh, of clone propagate]
  show "\<exists>pre post st s'.
       session_at clone s x propagate = (Inr (Moment x st propagate), s')
     \<and> offsets s = pre @ post \<and> offsets s' = pre @ x # post
     \<and> pre \<noteq> [] \<and> last pre < x \<and> (\<forall>y\<in>set pre. y \<le> last pre)
     \<and> (\<forall>y\<in>set post. x < y)
     \<and> states s' = (states s)(x \<mapsto> st)
     \<and> sorted (offsets s') \<and> distinct (offsets s')"
    by blast
qed

theorem session_at_idempotent_or_splices_witness:
  "session_invariant empty_session \<and> Fin 0 \<le> Fin 5 \<and> Fin 5 \<notin> set (offsets empty_session)
   \<and> Fin 0 \<in> set (offsets empty_session)
   \<and> (\<exists>st. session_at example_clone empty_session (Fin 0) True
              = (Inr (Moment (Fin 0) st True), empty_session))
   \<and> (\<exists>pre post st s'.
         session_at example_clone empty_session (Fin 5) True = (Inr (Moment (Fin 5) st True), s')
       \<and> offsets empty_session = pre @ post \<and> offsets s' = pre @ Fin 5 # post
       \<and> sorted (offsets s') \<and> distinct (offsets s'))"
proof -
  have x: "Fin 0 \<le> Fin 5" "Fin 0 \<le> Fin 0" by simp_all
  have fresh: "Fin 5 \<notin> set (offsets empty_session)" and mem: "Fin 0 \<in> set (offsets empty_session)"
    by (simp_all add: empty_session_def)
  from session_at_idempotent_or_splices [OF empty_session_invariant x(1), of example_clone True]
    session_at_idempotent_or_splices [OF empty_session_invariant x(2), of example_clone True]
    fresh mem empty_session_invariant x
  show ?thesis by blast
qed

text \<open>
  C5. The id mapping gives the root node 0, every node that starts at an offset after the
  first its own session id, and every buffer its own session id. Nothing else enters:
  \<^verbatim>\<open>_build_id_mapping\<close> has no duration argument, so the ids are the same for every
  render duration. The hypotheses say that one object has one session id (\<open>node_sid\<close>,
  \<open>buffer_sid\<close> give the session id of an identity) and that a buffer of a group is listed
  among the group's members.
\<close>

theorem id_mapping_is_session_id:
  assumes run: "build_id_mapping s = Inr m"
    and root: "node_sid (node_ref (root_node s)) = 0"
    and nodes: "\<forall>x\<in>set (tl (offsets s)). \<forall>st. states s x = Some st \<longrightarrow>
                  (\<forall>n\<in>set (st_start_nodes st). node_sid (node_ref n) = session_id n)"
    and bufs: "\<forall>b\<in>set (buffers s). buffer_sid (buffer_ref b) = buffer_session_id b \<and>
                  (\<forall>g. buffer_group b = Some g \<longrightarrow>
                     (buffer_ref b, buffer_session_id b) \<in> set (buffer_group_buffers g) \<and>
                     (\<forall>c\<in>set (buffer_group_buffers g). buffer_sid (fst c) = snd c))"
  shows "m (NodeObj (node_ref (root_node s))) = Some 0
       \<and> (\<forall>x\<in>set (tl (offsets s)). \<forall>st. states s x = Some st \<longrightarrow>
            (\<forall>n\<in>set (st_start_nodes st). m (NodeObj (node_ref n)) = Some (session_id n)))
       \<and> (\<forall>b\<in>set (buffers s). m (BufferObj (buffer_ref b)) = Some (buffer_session_id b))"
proof -
  from run obtain mb mbus mn where
    mb: "build_id_mapping_for_buffers s = Inr mb" and
    mbus: "build_id_mapping_for_buses s = Inr mbus" and
    mn: "build_id_mapping_for_nodes s = Inr mn" and
    m: "m = mb ++ mbus ++ mn"
    by (rule build_id_mapping_parts)
  let ?m0 = "[NodeObj (node_ref (root_node s)) \<mapsto> (0::int)]"
  from mn have loop: "build_nodes_loop (states s) (tl (offsets s)) ?m0 = Inr mn"
    by (simp add: build_id_mapping_for_nodes_def)
  have node_val: "i = node_sid r" if "mn (NodeObj r) = Some i" for r i
  proof -
    from build_nodes_loop_source [OF loop that]
    consider "r = node_ref (root_node s)" "i = 0"
      | x st n where "x \<in> set (tl (offsets s))" "states s x = Some st" "n \<in> set (st_start_nodes st)"
          "node_ref n = r" "session_id n = i"
      by (auto split: if_splits)
    then show ?thesis
    proof cases
      case 1
      with root show ?thesis by simp
    next
      case 2
      with nodes have "node_sid (node_ref n) = session_id n" by blast
      with 2 show ?thesis by simp
    qed
  qed
  have node_key: "mn k = None" if "\<And>r. k \<noteq> NodeObj r" for k
  proof (rule ccontr)
    assume "mn k \<noteq> None"
    then obtain v where "mn k = Some v" by auto
    from build_nodes_loop_source [OF loop this] that show False
      by (auto split: if_splits)
  qed
  have bus_key: "mbus k = None" if "\<And>r. k \<noteq> BusObj r" "\<And>r. k \<noteq> BusGroupObj r" for k
    using mbus that by (rule build_id_mapping_for_buses_other)
  have root_def: "mn (NodeObj (node_ref (root_node s))) \<noteq> None"
    using loop by (rule build_nodes_loop_keeps) simp
  have c1: "m (NodeObj (node_ref (root_node s))) = Some 0"
  proof -
    from root_def obtain i where i: "mn (NodeObj (node_ref (root_node s))) = Some i" by auto
    with node_val root have "i = 0" by simp
    with i show ?thesis by (simp add: m)
  qed
  have c2: "m (NodeObj (node_ref n)) = Some (session_id n)"
    if "x \<in> set (tl (offsets s))" "states s x = Some st" "n \<in> set (st_start_nodes st)" for x st n
  proof -
    from build_nodes_loop_defined [OF loop that]
    obtain i where i: "mn (NodeObj (node_ref n)) = Some i" by auto
    with node_val have "i = node_sid (node_ref n)" by simp
    with nodes that have "i = session_id n" by simp
    with i show ?thesis by (simp add: m)
  qed
  from mb have bloop: "build_buffers_loop (buffers s) Map.empty = Inr mb"
    by (simp add: build_id_mapping_for_buffers_def)
  have c3: "m (BufferObj (buffer_ref b)) = Some (buffer_session_id b)" if b: "b \<in> set (buffers s)" for b
  proof -
    from bufs b have "\<forall>g. buffer_group b = Some g \<longrightarrow>
        (buffer_ref b, buffer_session_id b) \<in> set (buffer_group_buffers g)" by simp
    from build_buffers_loop_defined [OF bloop b this]
    obtain i where i: "mb (BufferObj (buffer_ref b)) = Some i" by auto
    from build_buffers_loop_source [OF bloop i] bufs
    have "i = buffer_sid (buffer_ref b)" by fastforce
    with bufs b have "i = buffer_session_id b" by simp
    moreover have "mn (BufferObj (buffer_ref b)) = None" by (rule node_key) simp
    moreover have "mbus (BufferObj (buffer_ref b)) = None" by (rule bus_key) simp_all
    ultimately show ?thesis using i by (simp add: m map_add_def)
  qed
  from c1 c2 c3 show ?thesis by blast
qed

theorem id_mapping_is_session_id_witness:
  "\<exists>m. build_id_mapping timeline_session = Inr m
     \<and> m (NodeObj 0) = Some 0 \<and> m (NodeObj 1) = Some 1000 \<and> m (NodeObj 2) = Some 1001
     \<and> m (BufferObj 3) = Some 0"
proof -
  from timeline_id_mapping_runs obtain m where run: "build_id_mapping timeline_session = Inr m" ..
  define node_sid :: "ref \<Rightarrow> int" where "node_sid r = (if r = 1 then 1000 else if r = 2 then 1001 else 0)" for r
  define buffer_sid :: "ref \<Rightarrow> int" where "buffer_sid r = 0" for r
  have root: "node_sid (node_ref (root_node timeline_session)) = 0"
    by (simp add: node_sid_def timeline_session_def empty_session_def example_root_def)
  have nodes: "\<forall>x\<in>set (tl (offsets timeline_session)). \<forall>st. states timeline_session x = Some st \<longrightarrow>
                  (\<forall>n\<in>set (st_start_nodes st). node_sid (node_ref n) = session_id n)"
    by (auto simp: node_sid_def timeline_session_def empty_session_def empty_state_def
        example_group_node_def example_synth_node_def)
  have bufs: "\<forall>b\<in>set (buffers timeline_session). buffer_sid (buffer_ref b) = buffer_session_id b \<and>
                  (\<forall>g. buffer_group b = Some g \<longrightarrow>
                     (buffer_ref b, buffer_session_id b) \<in> set (buffer_group_buffers g) \<and>
                     (\<forall>c\<in>set (buffer_group_buffers g). buffer_sid (fst c) = snd c))"
    by (simp add: buffer_sid_def timeline_session_def example_buffer_def)
  from id_mapping_is_session_id [OF run root nodes bufs]
  have "m (NodeObj 0) = Some 0 \<and> m (NodeObj 1) = Some 1000 \<and> m (NodeObj 2) = Some 1001
     \<and> m (BufferObj 3) = Some 0"
    by (simp add: timeline_session_def empty_session_def empty_state_def example_root_def
        example_buffer_def example_group_node_def example_synth_node_def)
  with run show ?thesis by blast
qed

text \<open>
  C6. The code breaks the claim for bus groups: the inner loop writes the key of the bus at
  hand at every turn, so of a group of two control buses the first member ends at the last
  id of the block (1) and the second member is never mapped, while the hardware buses get
  the ids the claim states (outputs 0 and 1, inputs 2 and 3).
\<close>

theorem bus_group_member_unmapped:
  "(case build_id_mapping_for_buses bus_session of
      Inl e \<Rightarrow> False
    | Inr m \<Rightarrow> m (BusGroupObj 10) = Some 0 \<and> m (BusObj 1) = Some 1 \<and> m (BusObj 2) = None
             \<and> m (BusObj 21) = Some 0 \<and> m (BusObj 22) = Some 1
             \<and> m (BusObj 31) = Some 2 \<and> m (BusObj 32) = Some 3)"
  by (simp add: build_id_mapping_for_buses_def bus_session_def empty_session_def
      hardware_buses_def allocate_def upt_rec)

text \<open>
  C3, as amended. When every stopping node has an id, \<^verbatim>\<open>_collect_node_free_requests\<close>
  returns: one \<^verbatim>\<open>NodeFreeRequest\<close> with the ascending ids of the nodes that have no "gate"
  parameter and a duration other than zero, if there is any such node; then one gate-to-zero
  \<^verbatim>\<open>NodeSetRequest\<close> for each node whose definition has a "gate" parameter, in ascending
  order of id. A stopping node without "gate" and of duration zero gets no request.
\<close>

theorem collect_node_free_requests_batches:
  assumes "\<forall>n\<in>set ns. id_mapping (NodeObj (node_ref n)) = Some (ids n)"
  shows "collect_node_free_requests id_mapping ns =
           Inr ((let free_ids = sort (map ids
                        (filter (\<lambda>n. \<not> has_gate n \<and> node_duration n \<noteq> Fin 0) ns))
                 in if free_ids = [] then [] else [NodeFreeRequest free_ids])
                @ map (\<lambda>node_id. NodeSetRequest node_id [(''gate'', Num 0)])
                    (sort (map ids (filter has_gate ns))))"
proof (cases "ns = []")
  case True
  then show ?thesis by (simp add: collect_node_free_requests_def)
next
  case False
  then show ?thesis
    by (simp add: collect_node_free_requests_def split_stop_nodes_mapped [OF assms] Let_def)
qed

theorem collect_node_free_requests_batches_witness:
  "example_id_mapping (NodeObj (node_ref example_synth_node)) = Some 1000
   \<and> example_id_mapping (NodeObj (node_ref example_group_node)) = Some 1001
   \<and> example_id_mapping (NodeObj (node_ref rand_seed_node)) = Some 1002
   \<and> example_id_mapping (NodeObj (node_ref example_root)) = Some 0
   \<and> collect_node_free_requests example_id_mapping
         [example_synth_node, example_group_node, rand_seed_node, example_root]
       = (Inr [NodeFreeRequest [0, 1001], NodeSetRequest 1000 [(''gate'', Num 0)]]
            :: error + unit request list)"
proof -
  have m: "\<forall>n\<in>set [example_synth_node, example_group_node, rand_seed_node, example_root].
       example_id_mapping (NodeObj (node_ref n)) = Some (session_id n)"
    by (simp add: example_id_mapping_def example_synth_node_def example_group_node_def
        rand_seed_node_def example_root_def)
  have ids: "example_id_mapping (NodeObj (node_ref example_synth_node)) = Some 1000"
    "example_id_mapping (NodeObj (node_ref example_group_node)) = Some 1001"
    "example_id_mapping (NodeObj (node_ref rand_seed_node)) = Some 1002"
    "example_id_mapping (NodeObj (node_ref example_root)) = Some 0"
    by (simp_all add: example_id_mapping_def example_synth_node_def example_group_node_def
        rand_seed_node_def example_root_def)
  have "collect_node_free_requests example_id_mapping
         [example_synth_node, example_group_node, rand_seed_node, example_root]
       = (Inr [NodeFreeRequest [0, 1001], NodeSetRequest 1000 [(''gate'', Num 0)]]
            :: error + unit request list)"
    using collect_node_free_requests_batches [OF m, where ?'a = unit]
    by (simp add: has_gate_def parameter_names_def example_synth_node_def
        example_group_node_def rand_seed_node_def example_root_def example_synthdef_def
        rand_seed_synthdef_def)
  with ids show ?thesis by blast
qed

text \<open>
  C3, as stated, fails: the synth of \<^verbatim>\<open>set_rand_seed\<close> stops, has no "gate" parameter, and is
  in no \<^verbatim>\<open>NodeFreeRequest\<close>; nothing at all is emitted for it.
\<close>

theorem collect_node_free_requests_counterexample:
  "\<not> (\<forall>id_mapping ns n node_id (requests :: unit request list).
        n \<in> set ns \<and> \<not> has_gate n \<and> id_mapping (NodeObj (node_ref n)) = Some node_id
        \<and> collect_node_free_requests id_mapping ns = Inr requests
        \<longrightarrow> (\<exists>node_ids. NodeFreeRequest node_ids \<in> set requests \<and> node_id \<in> set node_ids))"
proof -
  have "rand_seed_node \<in> set [rand_seed_node] \<and> \<not> has_gate rand_seed_node
        \<and> example_id_mapping (NodeObj (node_ref rand_seed_node)) = Some 1002
        \<and> collect_node_free_requests example_id_mapping [rand_seed_node]
            = (Inr [] :: error + unit request list)"
    by (simp add: collect_node_free_requests_def has_gate_def parameter_names_def
        rand_seed_node_def rand_seed_synthdef_def example_id_mapping_def)
  then show ?thesis by (metis empty_iff list.set(1))
qed



end
